theory Spec2Isabelle
  imports Complex_Main "HOL-Library.Sublist"
begin

chapter \<open>Model\<close>

section \<open>Errors\<close>

text \<open>
  A thrown JavaScript error, as far as the code inspects it: \<open>withRetry\<close> compares the
  \<open>name\<close> string and reads \<open>statusCode\<close>; callers read \<open>message\<close>. The classes of
  \<open>api/types.ts\<close> set \<open>name\<close> in their constructors. \<open>RateLimitError.retryAfter\<close> is
  stored by the class and read by no code, so it is left out.
\<close>

datatype jserror = JSError (name: string) (message: string) (statusCode: "int option")

definition AuthenticationError :: "string \<Rightarrow> jserror" where
  "AuthenticationError msg = JSError ''AuthenticationError'' msg None"

definition RateLimitError :: "string \<Rightarrow> jserror" where
  "RateLimitError msg = JSError ''RateLimitError'' msg None"

definition NetworkError :: "string \<Rightarrow> int option \<Rightarrow> jserror" where
  "NetworkError msg code = JSError ''NetworkError'' msg code"

text \<open>What a schema validator (\<open>Schema.parse\<close>) throws on a malformed response.\<close>

definition ZodError :: "string \<Rightarrow> jserror" where
  "ZodError msg = JSError ''ZodError'' msg None"

definition PlainError :: "string \<Rightarrow> jserror" where
  "PlainError msg = JSError ''Error'' msg None"

section \<open>Retry with backoff (\<open>utils/retry.ts\<close>)\<close>

record RetryOptions =
  maxRetries :: int
  baseDelay :: rat
  maxDelay :: rat
  onRetry :: bool

text \<open>\<open>Partial<RetryOptions>\<close>: a key that is absent is \<open>None\<close>.\<close>

record PartialRetryOptions =
  maxRetries_opt :: "int option"
  baseDelay_opt :: "rat option"
  maxDelay_opt :: "rat option"
  onRetry_opt :: bool

definition defaultOptions :: RetryOptions where
  "defaultOptions = \<lparr>maxRetries = 5, baseDelay = 1000, maxDelay = 60000, onRetry = False\<rparr>"

definition noOptions :: PartialRetryOptions where
  "noOptions = \<lparr>maxRetries_opt = None, baseDelay_opt = None, maxDelay_opt = None,
     onRetry_opt = False\<rparr>"

text \<open>The object spread \<open>{ ...defaultOptions, ...options }\<close>.\<close>

definition spreadOptions :: "RetryOptions \<Rightarrow> PartialRetryOptions \<Rightarrow> RetryOptions" where
  "spreadOptions d p =
     \<lparr>maxRetries = (case maxRetries_opt p of None \<Rightarrow> maxRetries d | Some v \<Rightarrow> v),
      baseDelay = (case baseDelay_opt p of None \<Rightarrow> baseDelay d | Some v \<Rightarrow> v),
      maxDelay = (case maxDelay_opt p of None \<Rightarrow> maxDelay d | Some v \<Rightarrow> v),
      onRetry = (onRetry_opt p \<or> onRetry d)\<rparr>"

text \<open>
  \<open>calculateDelay\<close>; the value of \<open>Math.random()\<close> is the last argument. Numbers are
  rationals, \<open>0.3\<close> is \<open>3/10\<close>.
\<close>

definition calculateDelay :: "nat \<Rightarrow> rat \<Rightarrow> rat \<Rightarrow> rat \<Rightarrow> rat" where
  "calculateDelay attempt base maxD random =
     (let exponentialDelay = base * 2 ^ attempt;
          jitter = random * (3 / 10) * exponentialDelay
      in min (exponentialDelay + jitter) maxD)"

text \<open>The test of lines 37--40: the failures that are re-thrown at once.\<close>

definition nonRetryable :: "jserror \<Rightarrow> bool" where
  "nonRetryable e \<longleftrightarrow>
     name e = ''AuthenticationError'' \<or> (name e = ''NetworkError'' \<and> statusCode e = Some 404)"

text \<open>
  What a run of \<open>withRetry\<close> does, in order: each call of the wrapped operation (with the
  attempt index), each call of the observer, each sleep.
\<close>

datatype event = Invoke nat | OnRetry jserror nat rat | Sleep rat

text \<open>
  The \<open>for\<close> loop of \<open>withRetry\<close>. The wrapped operation is given by its outcome at each
  invocation (\<open>Inl\<close>: it threw); \<open>rnd\<close> gives \<open>Math.random()\<close> at each attempt. The
  result is \<open>Inr v\<close> for \<open>return v\<close> and \<open>Inl x\<close> for \<open>throw x\<close>, where
  \<open>x = None\<close> is the \<open>undefined\<close> that \<open>throw lastError\<close> throws when the loop body
  never ran.
\<close>

function retry_loop ::
  "RetryOptions \<Rightarrow> (nat \<Rightarrow> rat) \<Rightarrow> (nat \<Rightarrow> jserror + 'a) \<Rightarrow> nat \<Rightarrow> jserror option \<Rightarrow> event list
     \<Rightarrow> (jserror option + 'a) \<times> event list" where
  "retry_loop opts rnd fn attempt lastError tr =
     (if int attempt \<le> maxRetries opts then
        (case fn attempt of
           Inr v \<Rightarrow> (Inr v, tr @ [Invoke attempt])
         | Inl e \<Rightarrow>
             if int attempt = maxRetries opts then (Inl (Some e), tr @ [Invoke attempt])
             else if nonRetryable e then (Inl (Some e), tr @ [Invoke attempt])
             else
               let delay = calculateDelay attempt (baseDelay opts) (maxDelay opts) (rnd attempt)
               in retry_loop opts rnd fn (Suc attempt) (Some e)
                    (tr @ [Invoke attempt]
                        @ (if onRetry opts then [OnRetry e (attempt + 1) delay] else [])
                        @ [Sleep delay]))
      else (Inl lastError, tr))"
  by pat_completeness auto
termination
  by (relation "measure (\<lambda>(opts, rnd, fn, attempt, lastError, tr).
        nat (maxRetries opts + 1 - int attempt))") auto

declare retry_loop.simps [simp del]

definition withRetry ::
  "(nat \<Rightarrow> jserror + 'a) \<Rightarrow> PartialRetryOptions \<Rightarrow> (nat \<Rightarrow> rat)
     \<Rightarrow> (jserror option + 'a) \<times> event list" where
  "withRetry fn options rnd = retry_loop (spreadOptions defaultOptions options) rnd fn 0 None []"

definition invocations :: "event list \<Rightarrow> nat" where
  "invocations tr = length (filter (\<lambda>ev. case ev of Invoke k \<Rightarrow> True | _ \<Rightarrow> False) tr)"

text \<open>The events of one failed and retried attempt.\<close>

definition retried :: "RetryOptions \<Rightarrow> (nat \<Rightarrow> rat) \<Rightarrow> jserror \<Rightarrow> nat \<Rightarrow> event list" where
  "retried opts rnd e attempt =
     (let delay = calculateDelay attempt (baseDelay opts) (maxDelay opts) (rnd attempt)
      in [Invoke attempt] @ (if onRetry opts then [OnRetry e (attempt + 1) delay] else [])
           @ [Sleep delay])"

text \<open>The error an outcome carries (only used where the outcome is a failure).\<close>

definition thrown :: "jserror + 'a \<Rightarrow> jserror" where
  "thrown r = (case r of Inl e \<Rightarrow> e | Inr v \<Rightarrow> PlainError [])"

definition retryableFailure :: "jserror + 'a \<Rightarrow> bool" where
  "retryableFailure r = (case r of Inl e \<Rightarrow> \<not> nonRetryable e | Inr v \<Rightarrow> False)"

text \<open>The events of the attempts \<open>a, a + 1, ..., a + n - 1\<close>, all failed and retried.\<close>

fun retried_from :: "RetryOptions \<Rightarrow> (nat \<Rightarrow> rat) \<Rightarrow> (nat \<Rightarrow> jserror + 'a) \<Rightarrow> nat \<Rightarrow> nat \<Rightarrow> event list" where
  "retried_from opts rnd fn a 0 = []"
| "retried_from opts rnd fn a (Suc n) =
     retried opts rnd (thrown (fn a)) a @ retried_from opts rnd fn (Suc a) n"

definition sleeps :: "event list \<Rightarrow> nat" where
  "sleeps tr = length (filter (\<lambda>ev. case ev of Sleep d \<Rightarrow> True | _ \<Rightarrow> False) tr)"

definition observations :: "event list \<Rightarrow> nat" where
  "observations tr = length (filter (\<lambda>ev. case ev of OnRetry e k d \<Rightarrow> True | _ \<Rightarrow> False) tr)"

section \<open>The network call (\<open>api/client.ts\<close>)\<close>

text \<open>
  What the platform's \<open>fetch\<close> gives for one request: it rejects (no connection), or it
  resolves with a response, whose body \<open>response.json()\<close> parses or fails to parse.
\<close>

datatype 'd http = Rejected jserror | Response (status: int) (statusText: string) (json: "jserror + 'd")

fun decimal :: "nat \<Rightarrow> string" where
  "decimal n = (if n < 10 then [''0123456789'' ! n]
                else decimal (n div 10) @ [''0123456789'' ! (n mod 10)])"

declare decimal.simps [simp del]

definition show_int :: "int \<Rightarrow> string" where
  "show_int i = (if i < 0 then CHR ''-'' # decimal (nat (- i)) else decimal (nat i))"

text \<open>\<open>response.ok\<close>\<close>

definition ok :: "int \<Rightarrow> bool" where
  "ok st \<longleftrightarrow> 200 \<le> st \<and> st \<le> 299"

text \<open>
  The closure that \<open>ChatGPTClient.fetch\<close> hands to \<open>withRetry\<close>: one request, the status
  checks, then the optional validator \<open>parseResponse\<close> on the parsed body.
\<close>

definition request :: "('d \<Rightarrow> jserror + 'd) option \<Rightarrow> 'd http \<Rightarrow> jserror + 'd" where
  "request parseResponse h =
     (case h of
        Rejected e \<Rightarrow> Inl e
      | Response st txt body \<Rightarrow>
          if \<not> ok st then
            (if st = 401 \<or> st = 403 then Inl (AuthenticationError ''Access token expired or invalid.'')
             else if st = 429 then Inl (RateLimitError ''Rate limited by API'')
             else Inl (NetworkError (''Request failed: '' @ show_int st @ '' '' @ txt) (Some st)))
          else
            (case body of
               Inl e \<Rightarrow> Inl e
             | Inr data \<Rightarrow> (case parseResponse of None \<Rightarrow> Inr data | Some parse \<Rightarrow> parse data)))"

text \<open>
  \<open>ChatGPTClient.fetch\<close>. Its options are \<open>method\<close>, \<open>body\<close> and \<open>parseResponse\<close>
  only; the call of \<open>withRetry\<close> passes the observer and nothing else, so the retry
  budget is the default one. \<open>net\<close> gives the platform's answer to the k-th request.
\<close>

definition fetch ::
  "string \<Rightarrow> ('d \<Rightarrow> jserror + 'd) option \<Rightarrow> (nat \<Rightarrow> 'd http) \<Rightarrow> (nat \<Rightarrow> rat)
     \<Rightarrow> (jserror option + 'd) \<times> event list" where
  "fetch accessToken parseResponse net rnd =
     (if accessToken = [] then
        (Inl (Some (AuthenticationError ''Client not initialized. Call initialize() first.'')), [])
      else withRetry (\<lambda>k. request parseResponse (net k)) (noOptions\<lparr>onRetry_opt := True\<rparr>) rnd)"

text \<open>
  A response that arrived with a success status and a parsable body, and that the schema
  validator rejects.
\<close>

definition validationFailure :: "('d \<Rightarrow> jserror + 'd) \<Rightarrow> 'd http \<Rightarrow> bool" where
  "validationFailure parse h =
     (case h of
        Rejected e \<Rightarrow> False
      | Response st txt body \<Rightarrow>
          ok st \<and> (case body of
                     Inl e \<Rightarrow> False
                   | Inr data \<Rightarrow> (case parse data of Inl e \<Rightarrow> name e = ''ZodError'' | Inr v \<Rightarrow> False)))"

section \<open>File references (\<open>services/file-service.ts\<close>)\<close>

datatype source = image_asset_pointer | attachment | citation

record FileReference =
  fileId :: string
  filename :: "string option"
  source :: source

text \<open>
  The parts of the message graph that \<open>extractFileReferences\<close> reads, at the types its
  casts give them. An optional field is an \<open>option\<close>; \<open>None\<close> stands for a missing,
  \<open>undefined\<close> or \<open>null\<close> value.

  An element of \<open>content.parts\<close> is a string, an object (of which \<open>content_type\<close> and
  \<open>asset_pointer\<close> are read) or \<open>null\<close>.
\<close>

datatype part = PString string | PObject (content_type: "string option") (asset_pointer: "string option") | PNull

datatype Attachment = Attachment (att_id: "string option") (att_name: "string option")

datatype CitationMetadata = CitationMetadata (meta_file_id: "string option") (meta_title: "string option")

datatype Citation =
  Citation (cit_metadata: "CitationMetadata option") (cit_file_id: "string option") (cit_title: "string option")

record Message =
  parts :: "part list option"
  attachments :: "Attachment list option"
  citations :: "Citation list option"

record MappingNode =
  message :: "Message option"

text \<open>
  A conversation record: \<open>mapping\<close> lists the nodes with their keys in the order in
  which \<open>Object.values\<close> enumerates them.
\<close>

record ConversationDetail =
  update_time :: "rat option"
  mapping :: "(string \<times> MappingNode) list"

definition FILE_SERVICE_PREFIX :: string where
  "FILE_SERVICE_PREFIX = ''file-service://''"

definition extractFileIdFromPointer :: "string \<Rightarrow> string option" where
  "extractFileIdFromPointer pointer =
     (if \<not> prefix FILE_SERVICE_PREFIX pointer then None
      else Some (drop (length FILE_SERVICE_PREFIX) pointer))"

text \<open>
  The \<open>Map<string, FileReference>\<close> of the scan, as the list of its entries in insertion
  order. The code calls \<open>set\<close> only for a key that \<open>has\<close> rejects, which appends.
\<close>

type_synonym refmap = "(string \<times> FileReference) list"

definition has :: "refmap \<Rightarrow> string \<Rightarrow> bool" where
  "has refs k \<longleftrightarrow> k \<in> set (map fst refs)"

definition set_new :: "refmap \<Rightarrow> string \<Rightarrow> FileReference \<Rightarrow> refmap" where
  "set_new refs k v = refs @ [(k, v)]"

text \<open>The \<open>??\<close> operator.\<close>

definition nullish :: "'a option \<Rightarrow> 'a option \<Rightarrow> 'a option" where
  "nullish a b = (case a of None \<Rightarrow> b | Some v \<Rightarrow> Some v)"

text \<open>1. One element of \<open>content.parts\<close>.\<close>

fun scanPart :: "refmap \<Rightarrow> part \<Rightarrow> refmap" where
  "scanPart refs (PObject ct ptr) =
     (if ct = Some ''image_asset_pointer'' then
        (case ptr of
           None \<Rightarrow> refs
         | Some pointer \<Rightarrow>
             if pointer = [] then refs
             else
               (case extractFileIdFromPointer pointer of
                  None \<Rightarrow> refs
                | Some fid \<Rightarrow>
                    if fid \<noteq> [] \<and> \<not> has refs fid
                    then set_new refs fid \<lparr>fileId = fid, filename = None, source = image_asset_pointer\<rparr>
                    else refs))
      else refs)"
| "scanPart refs (PString s) = refs"
| "scanPart refs PNull = refs"

text \<open>2. One element of \<open>metadata.attachments\<close>.\<close>

definition scanAttachment :: "refmap \<Rightarrow> Attachment \<Rightarrow> refmap" where
  "scanAttachment refs a =
     (case att_id a of
        None \<Rightarrow> refs
      | Some i \<Rightarrow>
          if i \<noteq> [] \<and> \<not> has refs i
          then set_new refs i \<lparr>fileId = i, filename = att_name a, source = attachment\<rparr>
          else refs)"

text \<open>3. One element of \<open>metadata.citations\<close>.\<close>

definition citationFileId :: "Citation \<Rightarrow> string option" where
  "citationFileId c =
     nullish (case cit_metadata c of None \<Rightarrow> None | Some metadata2 \<Rightarrow> meta_file_id metadata2) (cit_file_id c)"

definition citationTitle :: "Citation \<Rightarrow> string option" where
  "citationTitle c =
     nullish (case cit_metadata c of None \<Rightarrow> None | Some metadata2 \<Rightarrow> meta_title metadata2) (cit_title c)"

definition scanCitation :: "refmap \<Rightarrow> Citation \<Rightarrow> refmap" where
  "scanCitation refs c =
     (case citationFileId c of
        None \<Rightarrow> refs
      | Some fid \<Rightarrow>
          if fid \<noteq> [] \<and> \<not> has refs fid
          then set_new refs fid \<lparr>fileId = fid, filename = citationTitle c, source = citation\<rparr>
          else refs)"

text \<open>The body of the loop over the nodes.\<close>

definition scanNode :: "refmap \<Rightarrow> MappingNode \<Rightarrow> refmap" where
  "scanNode refs node =
     (case message node of
        None \<Rightarrow> refs
      | Some msg \<Rightarrow>
          (let refs1 = (case parts msg of None \<Rightarrow> refs | Some ps \<Rightarrow> foldl scanPart refs ps);
               refs2 = (case attachments msg of None \<Rightarrow> refs1 | Some as \<Rightarrow> foldl scanAttachment refs1 as);
               refs3 = (case citations msg of None \<Rightarrow> refs2 | Some cs \<Rightarrow> foldl scanCitation refs2 cs)
           in refs3))"

definition extractFileReferences :: "ConversationDetail \<Rightarrow> FileReference list" where
  "extractFileReferences detail = map snd (foldl scanNode [] (map snd (mapping detail)))"

text \<open>
  \<open>scanAllConversations\<close>, over the conversation files in the order in which
  \<open>collectAllJsonFiles\<close> lists them; a file that cannot be read or parsed is \<open>None\<close> and
  is skipped.
\<close>

definition mergeRef :: "refmap \<Rightarrow> FileReference \<Rightarrow> refmap" where
  "mergeRef refs ref = (if \<not> has refs (fileId ref) then set_new refs (fileId ref) ref else refs)"

definition scanFile :: "refmap \<Rightarrow> ConversationDetail option \<Rightarrow> refmap" where
  "scanFile refs file =
     (case file of None \<Rightarrow> refs | Some detail \<Rightarrow> foldl mergeRef refs (extractFileReferences detail))"

definition scanAllConversations :: "ConversationDetail option list \<Rightarrow> FileReference list" where
  "scanAllConversations files = map snd (foldl scanFile [] files)"

text \<open>
  The places of a conversation at which the scan reads a file identifier, in scan order,
  each with the reference the scan would store for it: per node the image pointers, then
  the attachments, then the citations. An occurrence whose identifier is the empty string
  is listed too.
\<close>

fun partOccurrence :: "part \<Rightarrow> FileReference list" where
  "partOccurrence (PObject ct ptr) =
     (if ct = Some ''image_asset_pointer'' then
        (case ptr of
           None \<Rightarrow> []
         | Some pointer \<Rightarrow>
             if pointer = [] then []
             else (case extractFileIdFromPointer pointer of
                     None \<Rightarrow> []
                   | Some fid \<Rightarrow> [\<lparr>fileId = fid, filename = None, source = image_asset_pointer\<rparr>]))
      else [])"
| "partOccurrence (PString s) = []"
| "partOccurrence PNull = []"

definition attachmentOccurrence :: "Attachment \<Rightarrow> FileReference list" where
  "attachmentOccurrence a =
     (case att_id a of None \<Rightarrow> [] | Some i \<Rightarrow> [\<lparr>fileId = i, filename = att_name a, source = attachment\<rparr>])"

definition citationOccurrence :: "Citation \<Rightarrow> FileReference list" where
  "citationOccurrence c =
     (case citationFileId c of
        None \<Rightarrow> []
      | Some fid \<Rightarrow> [\<lparr>fileId = fid, filename = citationTitle c, source = citation\<rparr>])"

definition nodeOccurrences :: "MappingNode \<Rightarrow> FileReference list" where
  "nodeOccurrences node =
     (case message node of
        None \<Rightarrow> []
      | Some msg \<Rightarrow>
          concat (map partOccurrence (case parts msg of None \<Rightarrow> [] | Some ps \<Rightarrow> ps))
          @ concat (map attachmentOccurrence (case attachments msg of None \<Rightarrow> [] | Some as \<Rightarrow> as))
          @ concat (map citationOccurrence (case citations msg of None \<Rightarrow> [] | Some cs \<Rightarrow> cs)))"

definition occurrences :: "ConversationDetail \<Rightarrow> FileReference list" where
  "occurrences detail = concat (map nodeOccurrences (map snd (mapping detail)))"

text \<open>What the scan does with one occurrence.\<close>

definition addOccurrence :: "refmap \<Rightarrow> FileReference \<Rightarrow> refmap" where
  "addOccurrence refs r =
     (if fileId r \<noteq> [] \<and> \<not> has refs (fileId r) then set_new refs (fileId r) r else refs)"

text \<open>The invariant of the map: every entry is stored under its own, non-empty identifier, once.\<close>

definition keyed :: "refmap \<Rightarrow> bool" where
  "keyed refs \<longleftrightarrow> distinct (map fst refs) \<and> (\<forall>(k, v) \<in> set refs. fileId v = k \<and> k \<noteq> [])"

section \<open>The download loop (\<open>BackupService.backup\<close> and \<open>downloadFiles\<close>)\<close>

text \<open>
  \<open>FileDownloadStats\<close>, and the variables that the workers of a batch share: the three
  counters, \<open>completed\<close>, and the recorded failures (identifier and message; for the
  file batch the identifiers are \<open>failedFileIds\<close>).
\<close>

record Stats =
  downloaded :: nat
  skipped :: nat
  failed :: nat

record LoopVars = Stats +
  completed :: nat
  errors :: "(string \<times> string) list"

definition noVars :: LoopVars where
  "noVars = \<lparr>downloaded = 0, skipped = 0, failed = 0, completed = 0, errors = []\<rparr>"

text \<open>
  Both batches run the same loop:
  \<^verbatim>\<open>
  while (queue.length > 0 || inProgress.size > 0) {
    while (inProgress.size < concurrency && queue.length > 0) {
      const item = queue.shift()!;
      const promise = processOne(item).then(() => { inProgress.delete(promise); });
      inProgress.add(promise);
      if (queue.length > 0 && delay > 0) await sleep(delay);
    }
    if (inProgress.size > 0) await Promise.race(inProgress);
  }
  \<close>
  The program is single-threaded: the workers advance only while the loop is suspended in
  one of its two \<open>await\<close>s. The state records where the loop is: at the test of the
  inner loop (\<open>Filling\<close>), in \<open>sleep\<close> (\<open>Sleeping\<close>), in \<open>Promise.race\<close> with no
  promise settled yet (\<open>Racing\<close>) or with one settled (\<open>Raced\<close>), after the loop
  (\<open>Returned\<close>), or ended by a rejected worker promise (\<open>Thrown\<close>). \<open>inProgress\<close> is
  the set of promises as the list of their items in insertion order; \<open>started\<close> lists
  the items handed to \<open>processOne\<close> so far.
\<close>

datatype pc = Filling | Sleeping | Racing | Raced | Returned | Thrown "jserror option"

record ('a, 'c) pool =
  queue :: "'a list"
  inProgress :: "'a list"
  shared :: 'c
  started :: "'a list"
  pc :: pc

text \<open>
  The steps: the inner loop starts a worker; the inner loop ends; the worker at position
  \<open>i\<close> of \<open>inProgress\<close> runs to its end; \<open>sleep\<close> is over; \<open>Promise.race\<close> resumes
  the loop.
\<close>

datatype step = Start | Exit | Complete nat | Wake | Resume

definition remove_nth :: "nat \<Rightarrow> 'a list \<Rightarrow> 'a list" where
  "remove_nth i xs = take i xs @ drop (Suc i) xs"

text \<open>
  A worker is given by what it does to the shared variables from start to end, and by
  the error with which its promise rejects, if it does. A worker that ends removes its
  promise from \<open>inProgress\<close>; a promise that rejects is never removed and ends the run
  without a result.
\<close>

type_synonym ('a, 'c) worker = "'a \<Rightarrow> 'c \<Rightarrow> 'c \<times> jserror option option"

fun fire :: "int \<Rightarrow> int \<Rightarrow> ('a, 'c) worker \<Rightarrow> step \<Rightarrow> ('a, 'c) pool \<Rightarrow> ('a, 'c) pool option" where
  "fire concurrency delay processOne Start s =
     (if pc s = Filling \<and> int (length (inProgress s)) < concurrency then
        (case queue s of
           [] \<Rightarrow> None
         | item # rest \<Rightarrow>
             Some (s\<lparr>queue := rest, inProgress := inProgress s @ [item],
                     started := started s @ [item],
                     pc := (if rest \<noteq> [] \<and> delay > 0 then Sleeping else Filling)\<rparr>))
      else None)"
| "fire concurrency delay processOne Exit s =
     (if pc s = Filling \<and> \<not> (int (length (inProgress s)) < concurrency \<and> queue s \<noteq> []) then
        Some (s\<lparr>pc := (if inProgress s \<noteq> [] then Racing
                        else if queue s \<noteq> [] \<or> inProgress s \<noteq> [] then Filling
                        else Returned)\<rparr>)
      else None)"
| "fire concurrency delay processOne (Complete i) s =
     (if (pc s = Sleeping \<or> pc s = Racing \<or> pc s = Raced) \<and> i < length (inProgress s) then
        (case processOne (inProgress s ! i) (shared s) of
           (vars, Some e) \<Rightarrow> Some (s\<lparr>shared := vars, pc := Thrown e\<rparr>)
         | (vars, None) \<Rightarrow>
             Some (s\<lparr>shared := vars, inProgress := remove_nth i (inProgress s),
                     pc := (if pc s = Racing then Raced else pc s)\<rparr>))
      else None)"
| "fire concurrency delay processOne Wake s =
     (if pc s = Sleeping then Some (s\<lparr>pc := Filling\<rparr>) else None)"
| "fire concurrency delay processOne Resume s =
     (if pc s = Raced then
        Some (s\<lparr>pc := (if queue s \<noteq> [] \<or> inProgress s \<noteq> [] then Filling else Returned)\<rparr>)
      else None)"

definition init_pool :: "'a list \<Rightarrow> 'c \<Rightarrow> ('a, 'c) pool" where
  "init_pool items vars =
     \<lparr>queue = items, inProgress = [], shared = vars, started = [],
      pc = (if items \<noteq> [] then Filling else Returned)\<rparr>"

text \<open>A run: the steps taken, in order. \<open>None\<close>: the steps are not a run of the loop.\<close>

fun exec :: "int \<Rightarrow> int \<Rightarrow> ('a, 'c) worker \<Rightarrow> step list \<Rightarrow> ('a, 'c) pool \<Rightarrow> ('a, 'c) pool option" where
  "exec concurrency delay processOne [] s = Some s"
| "exec concurrency delay processOne (e # es) s =
     (case fire concurrency delay processOne e s of
        None \<Rightarrow> None
      | Some s' \<Rightarrow> exec concurrency delay processOne es s')"

definition final :: "pc \<Rightarrow> bool" where
  "final p = (case p of Returned \<Rightarrow> True | Thrown e \<Rightarrow> True | _ \<Rightarrow> False)"

text \<open>The work left in a state, for the bound on the length of a run.\<close>

definition rank :: "pc \<Rightarrow> nat" where
  "rank p = (case p of Filling \<Rightarrow> 2 | Sleeping \<Rightarrow> 3 | Racing \<Rightarrow> 1 | Raced \<Rightarrow> 3 | Returned \<Rightarrow> 0 | Thrown e \<Rightarrow> 0)"

definition work :: "('a, 'c) pool \<Rightarrow> nat" where
  "work s = 5 * length (queue s) + 3 * length (inProgress s) + rank (pc s)"

section \<open>File downloads (\<open>downloadFiles\<close>)\<close>

text \<open>The download metadata of step 1, as far as it is read.\<close>

record DownloadMeta =
  download_url :: "string option"
  file_name :: "string option"

text \<open>
  What the world outside answers during a file batch: whether the directory of a file
  identifier already holds a file; the responses to the metadata requests for an
  identifier; the outcomes of the raw requests for a URL; the outcome of creating the
  directory and writing the file (\<open>None\<close>: success); \<open>Math.random()\<close>.
\<close>

record FilesEnv =
  dirHasFiles :: "string \<Rightarrow> bool"
  metaNet :: "string \<Rightarrow> nat \<Rightarrow> DownloadMeta http"
  rawNet :: "string \<Rightarrow> nat \<Rightarrow> jserror + string"
  writeFile :: "string \<Rightarrow> string \<Rightarrow> jserror option"
  jitter :: "nat \<Rightarrow> rat"

text \<open>
  Modelled from the spec: the client method that step 1 calls,
  \<open>client.fetch(ENDPOINTS.FILE_DOWNLOAD(ref.fileId), { retryOptions: { maxRetries: 1 } })\<close>,
  is not in the sources: the \<open>fetch\<close> of \<open>api/client.ts\<close> takes no \<open>retryOptions\<close>, and
  \<open>api/endpoints.ts\<close> has no \<open>FILE_DOWNLOAD\<close>. The spec: ``Step 1 (resolve): fetch
  short-lived download metadata for the file identifier, using a reduced retry budget
  (1 retry)'', through the network call abstraction, which ``fails with one of:
  AuthenticationFailure, RateLimited, NetworkFailure''. So: the request of the network
  call, under \<open>withRetry\<close> with \<open>maxRetries\<close> 1. \<open>metaNet\<close> stands for the answers
  of the endpoint.
\<close>

definition resolveMeta :: "FilesEnv \<Rightarrow> string \<Rightarrow> FileReference
    \<Rightarrow> (jserror option + DownloadMeta) \<times> event list" where
  "resolveMeta env accessToken ref =
     (if accessToken = [] then
        (Inl (Some (AuthenticationError ''Client not initialized. Call initialize() first.'')), [])
      else withRetry (\<lambda>k. request None (metaNet env (fileId ref) k))
             (noOptions\<lparr>maxRetries_opt := Some 1, onRetry_opt := True\<rparr>) (jitter env))"

text \<open>
  Modelled from the spec: \<open>ChatGPTClient.fetchRaw\<close> is called by \<open>downloadFiles\<close> and is
  not in the sources. The spec: ``Step 2 (fetch): fetch the raw bytes from the resolved
  URL, again with a reduced retry budget (1 retry).''
\<close>

definition fetchRaw :: "FilesEnv \<Rightarrow> string \<Rightarrow> (jserror option + string) \<times> event list" where
  "fetchRaw env url = withRetry (rawNet env url) (noOptions\<lparr>maxRetries_opt := Some 1\<rparr>) (jitter env)"

text \<open>\<open>(meta.file_name as string) || ref.filename || ref.fileId\<close>\<close>

definition truthy :: "string option \<Rightarrow> bool" where
  "truthy v = (case v of None \<Rightarrow> False | Some x \<Rightarrow> x \<noteq> [])"

definition chooseFilename :: "DownloadMeta \<Rightarrow> FileReference \<Rightarrow> string" where
  "chooseFilename meta ref =
     (if truthy (file_name meta) then the (file_name meta)
      else if truthy (filename ref) then the (filename ref)
      else fileId ref)"

text \<open>\<open>error instanceof Error ? error.message : String(error)\<close>, and \<open>error.message\<close>.\<close>

definition errorMessage :: "jserror option \<Rightarrow> string" where
  "errorMessage error = (case error of None \<Rightarrow> ''undefined'' | Some e \<Rightarrow> jserror.message e)"

text \<open>The \<open>try\<close> block of the file worker: \<open>None\<close> when it ran to its end.\<close>

definition tryDownloadFile :: "FilesEnv \<Rightarrow> string \<Rightarrow> FileReference \<Rightarrow> jserror option option" where
  "tryDownloadFile env accessToken ref =
     (case fst (resolveMeta env accessToken ref) of
        Inl e \<Rightarrow> Some e
      | Inr meta \<Rightarrow>
          if \<not> truthy (download_url meta) then Some (Some (PlainError ''File not available''))
          else
            (case fst (fetchRaw env (the (download_url meta))) of
               Inl e \<Rightarrow> Some e
             | Inr buffer \<Rightarrow>
                 (case writeFile env (fileId ref) (chooseFilename meta ref) of
                    Some e \<Rightarrow> Some (Some e)
                  | None \<Rightarrow> None)))"

text \<open>
  \<open>processOne\<close> of \<open>downloadFiles\<close>. The callbacks \<open>onProgress\<close> and \<open>onError\<close> are
  the caller's; they are taken not to throw, so the promise of this worker never rejects.
\<close>

definition processFile :: "FilesEnv \<Rightarrow> string \<Rightarrow> (FileReference, LoopVars) worker" where
  "processFile env accessToken ref vars =
     (if dirHasFiles env (fileId ref) then
        (vars\<lparr>skipped := skipped vars + 1, completed := completed vars + 1\<rparr>, None)
      else
        (case tryDownloadFile env accessToken ref of
           None \<Rightarrow> (vars\<lparr>downloaded := downloaded vars + 1, completed := completed vars + 1\<rparr>, None)
         | Some error \<Rightarrow>
             (vars\<lparr>failed := failed vars + 1,
                   errors := errors vars @ [(fileId ref, errorMessage error)],
                   completed := completed vars + 1\<rparr>, None)))"

record FileDownloadResult = Stats +
  total :: nat
  failedFileIds :: "string list"

text \<open>
  The options both batches take (\<open>--concurrency\<close> and \<open>--delay\<close>, parsed integers),
  and those of \<open>downloadFiles\<close>: \<open>skipFileIds\<close> is the optional \<open>Set<string>\<close>, as the
  list of its elements.
\<close>

record LoopOptions =
  concurrency :: int
  delay :: int

record FileDownloadOptions = LoopOptions +
  skipFileIds :: "string list option"

text \<open>Lines 186--189: the references that remain after the previously failed ones.\<close>

definition activeRefs :: "string list option \<Rightarrow> FileReference list \<Rightarrow> FileReference list" where
  "activeRefs skipIds allRefs =
     (case skipIds of
        None \<Rightarrow> allRefs
      | Some ids \<Rightarrow> if length ids > 0 then filter (\<lambda>ref. fileId ref \<notin> set ids) allRefs else allRefs)"

definition fileResult :: "FileReference list \<Rightarrow> (FileReference, LoopVars) pool \<Rightarrow> FileDownloadResult" where
  "fileResult refs s =
     \<lparr>downloaded = downloaded (shared s), skipped = skipped (shared s), failed = failed (shared s),
      total = length refs, failedFileIds = map fst (errors (shared s))\<rparr>"

text \<open>
  \<open>downloadFiles\<close> along the run \<open>steps\<close>: \<open>Some\<close> result when the steps are a run
  of the loop that ends with the \<open>return\<close>, \<open>None\<close> otherwise.
\<close>

definition downloadFiles ::
  "FilesEnv \<Rightarrow> string \<Rightarrow> FileReference list \<Rightarrow> FileDownloadOptions \<Rightarrow> step list
     \<Rightarrow> FileDownloadResult option" where
  "downloadFiles env accessToken allRefs options steps =
     (let refs = activeRefs (skipFileIds options) allRefs in
      case exec (concurrency options) (delay options) (processFile env accessToken) steps
             (init_pool refs noVars) of
        None \<Rightarrow> None
      | Some s \<Rightarrow> if pc s = Returned then Some (fileResult refs s) else None)"

section \<open>The file run of the backup command (\<open>runFileDownloads\<close>)\<close>

text \<open>\<open>new Set(array)\<close>: the elements in the order of their first occurrence.\<close>

definition Set_of :: "string list \<Rightarrow> string list" where
  "Set_of xs = foldl (\<lambda>acc x. if x \<in> set acc then acc else acc @ [x]) [] xs"

text \<open>
  \<open>loadFailedFiles\<close>: the argument is \<open>metadata.failedFiles\<close> when \<open>metadata.json\<close> can
  be read and holds an array there, \<open>None\<close> otherwise.
\<close>

definition loadFailedFiles :: "string list option \<Rightarrow> string list" where
  "loadFailedFiles failedFiles = (case failedFiles of None \<Rightarrow> [] | Some ids \<Rightarrow> Set_of ids)"

text \<open>
  What a file run reports: the count of previously failed references, the result of
  \<open>downloadFiles\<close> when it was called, and the list given to \<open>saveFailedFiles\<close>.
\<close>

record FileRun =
  skippedKnown :: nat
  result :: "FileDownloadResult option"
  savedFailedFiles :: "string list option"

definition runFileDownloads ::
  "FilesEnv \<Rightarrow> string \<Rightarrow> ConversationDetail option list \<Rightarrow> string list option \<Rightarrow> LoopOptions
     \<Rightarrow> step list \<Rightarrow> FileRun option" where
  "runFileDownloads env accessToken files failedFiles options steps =
     (let refs = scanAllConversations files;
          skipIds = loadFailedFiles failedFiles;
          known = (if length skipIds > 0
                   then length (filter (\<lambda>r. fileId r \<in> set skipIds) refs) else 0);
          activeCount = length refs - known
      in if activeCount = 0 then
           Some \<lparr>skippedKnown = known, result = None, savedFailedFiles = None\<rparr>
         else
           (case downloadFiles env accessToken refs
                   \<lparr>concurrency = concurrency options, delay = delay options,
                    skipFileIds = Some skipIds\<rparr> steps of
              None \<Rightarrow> None
            | Some r \<Rightarrow>
                Some \<lparr>skippedKnown = known, result = Some r,
                      savedFailedFiles = Some (skipIds @ failedFileIds r)\<rparr>))"

section \<open>The conversation backup (\<open>BackupService.backup\<close>)\<close>

text \<open>
  A JavaScript number as the comparison of line 137 sees it: \<open>new Date(s).getTime()\<close> is
  \<open>NaN\<close> for a string that is not a date, and every comparison with \<open>NaN\<close> is false.
\<close>

datatype number = Num rat | NaN

definition js_ge :: "number \<Rightarrow> number \<Rightarrow> bool" where
  "js_ge a b = (case a of NaN \<Rightarrow> False | Num x \<Rightarrow> (case b of NaN \<Rightarrow> False | Num y \<Rightarrow> y \<le> x))"

text \<open>\<open>ConversationItem.update_time\<close>: a string, a number or \<open>null\<close>.\<close>

datatype timestamp = TNumber rat | TString string | TNull

datatype ConversationItem =
  ConversationItem (conv_id: string) (title: "string option") (conv_update_time: timestamp)

text \<open>
  The conversation file of an identifier in the storage directory: missing (\<open>None\<close>),
  not readable as a JSON object, or a stored record, of which \<open>update_time\<close> is read at
  its declared type \<open>number | null\<close>.
\<close>

datatype storedFile = Unparsable | Stored ConversationDetail

definition getExistingConversationUpdateTime :: "(string \<Rightarrow> storedFile option) \<Rightarrow> string \<Rightarrow> rat option" where
  "getExistingConversationUpdateTime stored i =
     (case stored i of
        None \<Rightarrow> None
      | Some Unparsable \<Rightarrow> None
      | Some (Stored data) \<Rightarrow> update_time data)"

text \<open>
  Lines 131--135. \<open>getTime s\<close> is \<open>new Date(s).getTime()\<close>, in milliseconds, \<open>None\<close>
  for an invalid date.
\<close>

definition convUpdateTime :: "(string \<Rightarrow> int option) \<Rightarrow> ConversationItem \<Rightarrow> number option" where
  "convUpdateTime getTime conv =
     (case conv_update_time conv of
        TNumber n \<Rightarrow> Some (Num n)
      | TString s \<Rightarrow>
          if s \<noteq> [] then Some (case getTime s of None \<Rightarrow> NaN | Some ms \<Rightarrow> Num (of_int ms / 1000))
          else None
      | TNull \<Rightarrow> None)"

text \<open>The test of line 137.\<close>

definition upToDate :: "rat option \<Rightarrow> number option \<Rightarrow> bool" where
  "upToDate existingUpdateTime convTime =
     (case existingUpdateTime of
        None \<Rightarrow> False
      | Some l \<Rightarrow> (case convTime of None \<Rightarrow> False | Some r \<Rightarrow> js_ge (Num l) r))"

text \<open>
  What the world outside answers during a backup: the stored conversation files, the
  date parser, the responses to the detail requests of a conversation, the schema
  validator, and the outcomes (\<open>None\<close>: success) of writing a conversation file, of
  appending a line to the log and of writing the run metadata.
\<close>

record BackupEnv =
  stored :: "string \<Rightarrow> storedFile option"
  getTime :: "string \<Rightarrow> int option"
  detailNet :: "string \<Rightarrow> nat \<Rightarrow> ConversationDetail http"
  schema :: "ConversationDetail \<Rightarrow> jserror + ConversationDetail"
  saveConversation :: "string \<Rightarrow> jserror option"
  appendLog :: "string \<Rightarrow> jserror option"
  saveMetadata :: "jserror option"
  random :: "nat \<Rightarrow> rat"

record BackupOptions = LoopOptions +
  incremental :: bool
  verbose :: bool

text \<open>The loop of lines 128--145 over the listed conversations.\<close>

definition planStep ::
  "BackupEnv \<Rightarrow> bool \<Rightarrow> LoopVars \<times> ConversationItem list \<Rightarrow> ConversationItem
     \<Rightarrow> LoopVars \<times> ConversationItem list" where
  "planStep env incr st conv =
     (case st of (vars, toDownload) \<Rightarrow>
        if incr \<and> upToDate (getExistingConversationUpdateTime (stored env) (conv_id conv))
                     (convUpdateTime (getTime env) conv)
        then (vars\<lparr>skipped := skipped vars + 1, completed := completed vars + 1\<rparr>, toDownload)
        else (vars, toDownload @ [conv]))"

definition plan ::
  "BackupEnv \<Rightarrow> bool \<Rightarrow> ConversationItem list \<Rightarrow> LoopVars \<times> ConversationItem list" where
  "plan env incr conversations = foldl (planStep env incr) (noVars, []) conversations"

definition downloadConversation :: "BackupEnv \<Rightarrow> string \<Rightarrow> string \<Rightarrow> jserror option + ConversationDetail" where
  "downloadConversation env accessToken i =
     fst (fetch accessToken (Some (schema env)) (detailNet env i) (random env))"

text \<open>
  The \<open>try\<close> block of the conversation worker: the variables after it, and the error it
  threw, if any.
\<close>

definition tryDownloadConversation ::
  "BackupEnv \<Rightarrow> string \<Rightarrow> bool \<Rightarrow> ConversationItem \<Rightarrow> LoopVars \<Rightarrow> LoopVars \<times> jserror option option" where
  "tryDownloadConversation env accessToken verb conv vars =
     (case downloadConversation env accessToken (conv_id conv) of
        Inl e \<Rightarrow> (vars, Some e)
      | Inr detail \<Rightarrow>
          (case saveConversation env (conv_id conv) of
             Some e \<Rightarrow> (vars, Some (Some e))
           | None \<Rightarrow>
               (let vars1 = vars\<lparr>downloaded := downloaded vars + 1\<rparr> in
                if verb then
                  (case appendLog env (''Downloaded: '' @ conv_id conv @ '' - ''
                          @ (case title conv of None \<Rightarrow> ''Untitled'' | Some t \<Rightarrow> t)) of
                     Some e \<Rightarrow> (vars1, Some (Some e))
                   | None \<Rightarrow> (vars1, None))
                else (vars1, None))))"

text \<open>
  \<open>processOne\<close> of \<open>backup\<close>: \<open>try\<close>, \<open>catch\<close>, \<open>finally\<close>. The log append of the
  \<open>catch\<close> block is outside any \<open>try\<close>: when it fails the promise rejects. The
  callbacks \<open>onError\<close> and \<open>onDownloadProgress\<close> are the caller's and are taken not to
  throw.
\<close>

definition processConversation ::
  "BackupEnv \<Rightarrow> string \<Rightarrow> bool \<Rightarrow> (ConversationItem, LoopVars) worker" where
  "processConversation env accessToken verb conv vars =
     (case tryDownloadConversation env accessToken verb conv vars of
        (vars1, None) \<Rightarrow> (vars1\<lparr>completed := completed vars1 + 1\<rparr>, None)
      | (vars1, Some error) \<Rightarrow>
          (let vars2 = vars1\<lparr>errors := errors vars1 @ [(conv_id conv, errorMessage error)],
                             failed := failed vars1 + 1\<rparr>
           in case appendLog env (''Failed: '' @ conv_id conv @ '' - '' @ errorMessage error) of
                None \<Rightarrow> (vars2\<lparr>completed := completed vars2 + 1\<rparr>, None)
              | Some e \<Rightarrow> (vars2\<lparr>completed := completed vars2 + 1\<rparr>, Some (Some e))))"

record BackupResult = Stats +
  totalConversations :: nat
  errorList :: "(string \<times> string) list"

text \<open>Lines 189--206: the metadata, the last log line, the result.\<close>

definition finishBackup ::
  "BackupEnv \<Rightarrow> ConversationItem list \<Rightarrow> LoopVars \<Rightarrow> jserror option + BackupResult" where
  "finishBackup env conversations vars =
     (case saveMetadata env of
        Some e \<Rightarrow> Inl (Some e)
      | None \<Rightarrow>
          (case appendLog env (''Backup completed: '' @ decimal (downloaded vars) @ '' downloaded, ''
                  @ decimal (skipped vars) @ '' skipped, '' @ decimal (failed vars) @ '' failed'') of
             Some e \<Rightarrow> Inl (Some e)
           | None \<Rightarrow>
               Inr \<lparr>downloaded = downloaded vars, skipped = skipped vars, failed = failed vars,
                    totalConversations = length conversations, errorList = errors vars\<rparr>))"

text \<open>
  \<open>backup\<close> from the listed conversations on, along the run \<open>steps\<close> of the download
  loop: \<open>None\<close> when the steps are not a whole run, \<open>Some (Inl e)\<close> when the method
  throws, \<open>Some (Inr r)\<close> when it returns \<open>r\<close>. (Before that, the method creates the
  directory, appends a log line, lists the conversations and writes the index; a failure
  of one of these ends it with no result.)
\<close>

definition backup ::
  "BackupEnv \<Rightarrow> string \<Rightarrow> BackupOptions \<Rightarrow> ConversationItem list \<Rightarrow> step list
     \<Rightarrow> (jserror option + BackupResult) option" where
  "backup env accessToken options conversations steps =
     (case plan env (incremental options) conversations of
        (vars, toDownload) \<Rightarrow>
          (case exec (concurrency options) (delay options)
                  (processConversation env accessToken (verbose options)) steps
                  (init_pool toDownload vars) of
             None \<Rightarrow> None
           | Some s \<Rightarrow>
               (case pc s of
                  Returned \<Rightarrow> Some (finishBackup env conversations (shared s))
                | Thrown e \<Rightarrow> Some (Inl e)
                | _ \<Rightarrow> None)))"

text \<open>Properties of the states of the loop: the bound on the workers in flight;\<close>

definition bounded :: "int \<Rightarrow> ('a, 'c) pool \<Rightarrow> bool" where
  "bounded c s \<longleftrightarrow> length (inProgress s) \<le> nat c"

text \<open>the bookkeeping of the queue and of the started items;\<close>

definition shaped :: "'a list \<Rightarrow> ('a, 'c) pool \<Rightarrow> bool" where
  "shaped items s \<longleftrightarrow>
     started s @ queue s = items \<and> set (inProgress s) \<subseteq> set (started s)
     \<and> (pc s = Racing \<longrightarrow> inProgress s \<noteq> [])
     \<and> (pc s = Returned \<longrightarrow> queue s = [] \<and> inProgress s = [])"

text \<open>the number of items counted in the three counters;\<close>

definition tally :: "LoopVars \<Rightarrow> nat" where
  "tally v = downloaded v + skipped v + failed v"

text \<open>a worker that counts its item in exactly one of the three counters;\<close>

definition counts_once :: "('a, LoopVars) worker \<Rightarrow> bool" where
  "counts_once w \<longleftrightarrow> (\<forall>x v. tally (fst (w x v)) = tally v + 1)"

text \<open>a worker whose promise never rejects;\<close>

definition never_rejects :: "('a, 'c) worker \<Rightarrow> bool" where
  "never_rejects w \<longleftrightarrow> (\<forall>x v. snd (w x v) = None)"

text \<open>every item is in the queue, in flight, or counted;\<close>

definition accounted :: "nat \<Rightarrow> ('a, LoopVars) pool \<Rightarrow> bool" where
  "accounted n s \<longleftrightarrow>
     (pc s = Returned \<or> \<not> final (pc s)) \<longrightarrow>
       tally (shared s) + length (queue s) + length (inProgress s) = n"

text \<open>no worker promise has rejected.\<close>

definition unthrown :: "('a, 'c) pool \<Rightarrow> bool" where
  "unthrown s \<longleftrightarrow> (case pc s of Thrown e \<Rightarrow> False | _ \<Rightarrow> True)"

text \<open>The condition under which the loop of lines 128--145 skips a conversation.\<close>

definition skips :: "BackupEnv \<Rightarrow> bool \<Rightarrow> ConversationItem \<Rightarrow> bool" where
  "skips env incr conv \<longleftrightarrow>
     incr \<and> upToDate (getExistingConversationUpdateTime (stored env) (conv_id conv))
              (convUpdateTime (getTime env) conv)"

text \<open>The file workers record failures of started items only.\<close>

definition failures_started :: "(FileReference, LoopVars) pool \<Rightarrow> bool" where
  "failures_started s \<longleftrightarrow>
     fst ` set (errors (shared s)) \<subseteq> fileId ` set (started s)
     \<and> set (inProgress s) \<subseteq> set (started s)"

text \<open>The map of the collection-wide scan holds every reference under its identifier, once.\<close>

definition indexed :: "refmap \<Rightarrow> bool" where
  "indexed refs \<longleftrightarrow> distinct (map fst refs) \<and> (\<forall>x \<in> set refs. fileId (snd x) = fst x)"

section \<open>The backup command (\<open>backupCommand\<close>)\<close>

text \<open>
  \<open>metadata.json\<close>, as far as it is read and written: the keys of \<open>BackupMetadata\<close>
  (\<open>totalConversations\<close> and \<open>errors\<close> are \<open>conversationCount\<close> and \<open>loggedErrors\<close> here),
  present together or not, and the key \<open>failedFiles\<close>. The file itself is \<open>None\<close> when
  it is missing or cannot be parsed.
\<close>

record BackupMetadata =
  timestamp :: string
  conversationCount :: nat
  successfulDownloads :: nat
  failedDownloads :: nat
  loggedErrors :: "(string \<times> string) list"

record MetadataJson =
  backupMetadata :: "BackupMetadata option"
  failed_files :: "string list option"

text \<open>
  \<open>StorageService.saveMetadata\<close>: \<open>fs.writeFile\<close> of the stringified \<open>BackupMetadata\<close>;
  what the file held before is replaced.
\<close>

definition saveMetadataFile :: "MetadataJson option \<Rightarrow> BackupMetadata \<Rightarrow> MetadataJson option" where
  "saveMetadataFile old metadata = Some \<lparr>backupMetadata = Some metadata, failed_files = None\<rparr>"

text \<open>\<open>saveFailedFiles\<close>: the parsed file, or \<open>{}\<close>, with \<open>failedFiles\<close> set, written back.\<close>

definition saveFailedFiles :: "MetadataJson option \<Rightarrow> string list \<Rightarrow> MetadataJson option" where
  "saveFailedFiles old ids =
     Some ((case old of None \<Rightarrow> \<lparr>backupMetadata = None, failed_files = None\<rparr> | Some m \<Rightarrow> m)
             \<lparr>failed_files := Some ids\<rparr>)"

text \<open>What \<open>loadFailedFiles\<close> finds under \<open>failedFiles\<close>.\<close>

definition readFailedFiles :: "MetadataJson option \<Rightarrow> string list option" where
  "readFailedFiles file = (case file of None \<Rightarrow> None | Some m \<Rightarrow> failed_files m)"

text \<open>
  \<open>backupCommand\<close> for one project, from the listed conversations on: the backup, which
  writes the run metadata before it returns, then \<open>runFileDownloads\<close> when
  \<open>--download-files\<close> is given. (The branch for all conversations runs one backup for
  the main conversations and one for each project, each writing the run metadata, and
  then \<open>runFileDownloads\<close> in the same way.) \<open>metadataJson\<close> is \<open>metadata.json\<close> as
  the command finds it, \<open>now\<close> the time stamp, \<open>files\<close> the conversation files of the
  output directory after the backup. The result: what the backup returned, what the file
  run reported, and \<open>metadata.json\<close> as the command leaves it; \<open>None\<close> when the steps
  are not whole runs or the backup threw.
\<close>

definition backupCommand ::
  "BackupEnv \<Rightarrow> FilesEnv \<Rightarrow> string \<Rightarrow> string \<Rightarrow> BackupOptions \<Rightarrow> bool \<Rightarrow> ConversationItem list
     \<Rightarrow> ConversationDetail option list \<Rightarrow> MetadataJson option \<Rightarrow> step list \<Rightarrow> step list
     \<Rightarrow> (BackupResult \<times> FileRun option \<times> MetadataJson option) option" where
  "backupCommand benv fenv accessToken now options shouldDownloadFiles conversations files
       metadataJson bsteps fsteps =
     (case backup benv accessToken options conversations bsteps of
        Some (Inr r) \<Rightarrow>
          (let json1 = saveMetadataFile metadataJson
                 \<lparr>timestamp = now, conversationCount = totalConversations r,
                  successfulDownloads = downloaded r, failedDownloads = failed r,
                  loggedErrors = errorList r\<rparr>
           in if \<not> shouldDownloadFiles then Some (r, None, json1)
              else
                (case runFileDownloads fenv accessToken files (readFailedFiles json1)
                        \<lparr>concurrency = concurrency options, delay = delay options\<rparr> fsteps of
                   None \<Rightarrow> None
                 | Some run \<Rightarrow>
                     Some (r, Some run,
                           (case savedFailedFiles run of
                              None \<Rightarrow> json1
                            | Some ids \<Rightarrow> saveFailedFiles json1 ids))))
      | _ \<Rightarrow> None)"

section \<open>Concrete inputs\<close>

definition always_rate_limited :: "nat \<Rightarrow> jserror + unit" where
  "always_rate_limited k = Inl (RateLimitError ''Rate limited by API'')"
definition no_jitter :: "nat \<Rightarrow> rat" where "no_jitter k = 0"
definition one_retry :: PartialRetryOptions where "one_retry = noOptions\<lparr>maxRetries_opt := Some 1\<rparr>"
definition auth_on_second :: "nat \<Rightarrow> jserror + unit" where
  "auth_on_second k = (if k = 0 then Inl (RateLimitError ''Rate limited by API'')
                       else Inl (AuthenticationError ''Access token expired or invalid.''))"
definition schema_parse :: "string \<Rightarrow> jserror + string" where
  "schema_parse data = (if data = ''{items: []}'' then Inr data else Inl (ZodError ''Invalid input''))"
definition invalid_then_valid :: "nat \<Rightarrow> string http" where
  "invalid_then_valid k = (if k = 0 then Response 200 ''OK'' (Inr ''{}'') else Response 200 ''OK'' (Inr ''{items: []}''))"
definition always_invalid :: "nat \<Rightarrow> string http" where
  "always_invalid k = Response 200 ''OK'' (Inr ''{}'')"
definition busy_then_invalid :: "nat \<Rightarrow> string http" where
  "busy_then_invalid k =
     (if k = 0 then Response 500 ''Server Error'' (Inr ''{}'')
      else if k = 1 then Response 200 ''OK'' (Inr ''{}'')
      else Response 200 ''OK'' (Inr ''{items: []}''))"


definition dup_detail :: ConversationDetail where
  "dup_detail =
     \<lparr>update_time = Some 100,
      mapping =
        [(''n1'', \<lparr>message = Some
            \<lparr>parts = Some [PString ''see attached''],
             attachments = Some [Attachment (Some ''file-abc'') (Some ''report.pdf'')],
             citations = Some [Citation (Some (CitationMetadata (Some ''file-abc'') (Some ''Cited report''))) None None]\<rparr>\<rparr>)]\<rparr>"

definition demo_files_env :: FilesEnv where
  "demo_files_env =
     \<lparr>dirHasFiles = (\<lambda>fid. fid = ''file-old''),
      metaNet = (\<lambda>fid k.
        if fid = ''file-bad'' then Response 404 ''Not Found'' (Inr \<lparr>download_url = None, file_name = None\<rparr>)
        else if fid = ''file-down'' then Response 500 ''Server Error'' (Inr \<lparr>download_url = None, file_name = None\<rparr>)
        else Response 200 ''OK'' (Inr \<lparr>download_url = Some (''https://files/'' @ fid), file_name = Some ''a.png''\<rparr>)),
      rawNet = (\<lambda>url k. Inr ''bytes''),
      writeFile = (\<lambda>fid name. None),
      jitter = (\<lambda>k. 0)\<rparr>"

definition ref_of :: "string \<Rightarrow> source \<Rightarrow> FileReference" where
  "ref_of fid src = \<lparr>fileId = fid, filename = None, source = src\<rparr>"

definition demo_files :: "ConversationDetail option list" where
  "demo_files =
     [Some \<lparr>update_time = Some 100,
            mapping = [(''n1'', \<lparr>message = Some
              \<lparr>parts = None,
               attachments = Some [Attachment (Some ''file-new'') None, Attachment (Some ''file-gone'') None],
               citations = None\<rparr>\<rparr>)]\<rparr>,
      None,
      Some \<lparr>update_time = Some 200,
            mapping = [(''n1'', \<lparr>message = None\<rparr>),
                       (''n2'', \<lparr>message = Some
              \<lparr>parts = Some [PObject (Some ''image_asset_pointer'') (Some ''file-service://file-old'')],
               attachments = Some [Attachment (Some ''file-bad'') None],
               citations = Some [Citation None (Some ''file-new'') (Some ''cited'')]\<rparr>\<rparr>)]\<rparr>]"

definition demo_options :: LoopOptions where
  "demo_options = \<lparr>concurrency = 2, delay = 0\<rparr>"

definition demo_steps :: "step list" where
  "demo_steps = [Start, Start, Exit, Complete 1, Resume, Start, Exit, Complete 0, Complete 0, Resume]"

definition demo_backup_env :: BackupEnv where
  "demo_backup_env =
     \<lparr>stored = (\<lambda>i. if i = ''c-old'' then Some (Stored \<lparr>update_time = Some 100, mapping = []\<rparr>) else None),
      getTime = (\<lambda>s. if s = ''1970-01-01T00:01:40.000Z'' then Some 100000 else None),
      detailNet = (\<lambda>i k. Response 200 ''OK'' (Inr \<lparr>update_time = Some 150, mapping = []\<rparr>)),
      schema = Inr,
      saveConversation = (\<lambda>i. None),
      appendLog = (\<lambda>line. if line = ''Downloaded: c-new - Untitled''
                            then Some (PlainError ''EBUSY: resource busy or locked'') else None),
      saveMetadata = None,
      random = (\<lambda>k. 0)\<rparr>"

definition c_old :: ConversationItem where
  "c_old = ConversationItem ''c-old'' (Some ''Old chat'') (TString ''1970-01-01T00:01:40.000Z'')"

definition c_new :: ConversationItem where
  "c_new = ConversationItem ''c-new'' None (TNumber 150)"

definition verbose_incremental :: BackupOptions where
  "verbose_incremental = \<lparr>concurrency = 3, delay = 500, incremental = True, verbose = True\<rparr>"

definition one_worker_run :: "step list" where
  "one_worker_run = [Start, Exit, Complete 0, Resume]"

definition demo_active :: "FileReference list" where
  "demo_active = [ref_of ''file-new'' attachment, ref_of ''file-old'' image_asset_pointer,
                  ref_of ''file-bad'' attachment]"

definition demo_two_started :: "(FileReference, LoopVars) pool" where
  "demo_two_started =
     \<lparr>queue = [ref_of ''file-bad'' attachment],
      inProgress = [ref_of ''file-new'' attachment, ref_of ''file-old'' image_asset_pointer],
      shared = noVars,
      started = [ref_of ''file-new'' attachment, ref_of ''file-old'' image_asset_pointer],
      pc = Filling\<rparr>"

definition demo_one_started :: "(ConversationItem, LoopVars) pool" where
  "demo_one_started =
     \<lparr>queue = [], inProgress = [c_new], shared = noVars, started = [c_new], pc = Filling\<rparr>"

definition demo_result :: FileDownloadResult where
  "demo_result = \<lparr>downloaded = 1, skipped = 1, failed = 1, total = 3, failedFileIds = [''file-bad'']\<rparr>"

definition demo_run :: FileRun where
  "demo_run = \<lparr>skippedKnown = 1, result = Some demo_result,
                savedFailedFiles = Some [''file-gone'', ''file-bad'']\<rparr>"

definition demo_final :: "(FileReference, LoopVars) pool" where
  "demo_final =
     \<lparr>queue = [], inProgress = [],
      shared = \<lparr>downloaded = 1, skipped = 1, failed = 1, completed = 3,
                errors = [(''file-bad'', ''Request failed: 404 Not Found'')]\<rparr>,
      started = demo_active, pc = Returned\<rparr>"

definition demo_backup_result :: BackupResult where
  "demo_backup_result =
     \<lparr>downloaded = 1, skipped = 1, failed = 1, totalConversations = 2,
      errorList = [(''c-new'', ''EBUSY: resource busy or locked'')]\<rparr>"

definition quiet_incremental :: BackupOptions where
  "quiet_incremental = \<lparr>concurrency = 2, delay = 0, incremental = True, verbose = False\<rparr>"

definition persisted_metadata :: "MetadataJson option" where
  "persisted_metadata =
     Some \<lparr>backupMetadata = Some \<lparr>timestamp = ''2026-01-01T00:00:00.000Z'', conversationCount = 2,
                                  successfulDownloads = 2, failedDownloads = 0, loggedErrors = []\<rparr>,
           failed_files = Some [''file-gone'']\<rparr>"

definition command_file_steps :: "step list" where
  "command_file_steps =
     [Start, Start, Exit, Complete 0, Resume, Start, Exit, Complete 0, Complete 0, Resume,
      Start, Exit, Complete 0, Resume]"

definition command_backup_result :: BackupResult where
  "command_backup_result =
     \<lparr>downloaded = 1, skipped = 1, failed = 0, totalConversations = 2, errorList = []\<rparr>"

definition command_file_result :: FileDownloadResult where
  "command_file_result = \<lparr>downloaded = 2, skipped = 1, failed = 1, total = 4, failedFileIds = [''file-bad'']\<rparr>"

definition command_metadata :: "MetadataJson option" where
  "command_metadata =
     Some \<lparr>backupMetadata = Some \<lparr>timestamp = ''2026-02-01T00:00:00.000Z'', conversationCount = 2,
                                  successfulDownloads = 1, failedDownloads = 0, loggedErrors = []\<rparr>,
           failed_files = Some [''file-bad'']\<rparr>"


chapter \<open>Properties\<close>

section \<open>Retry\<close>

lemma retry_loop_step:
  assumes "retryableFailure (fn a)" "int a < maxRetries opts"
  shows "retry_loop opts rnd fn a le tr =
         retry_loop opts rnd fn (Suc a) (Some (thrown (fn a))) (tr @ retried opts rnd (thrown (fn a)) a)"
  using assms
  by (subst retry_loop.simps)
     (auto simp: retryableFailure_def thrown_def retried_def Let_def split: sum.splits)

lemma retry_loop_retried:
  assumes "\<forall>j<n. retryableFailure (fn (a + j))" "int (a + n) \<le> maxRetries opts"
  shows "\<exists>le'. retry_loop opts rnd fn a le tr =
         retry_loop opts rnd fn (a + n) le' (tr @ retried_from opts rnd fn a n)"
  using assms
proof (induction n arbitrary: a le tr)
  case 0
  then show ?case by auto
next
  case (Suc n)
  have first: "retryableFailure (fn a)" using Suc.prems(1) by force
  have lt: "int a < maxRetries opts" using Suc.prems(2) by simp
  have rest: "\<forall>j<n. retryableFailure (fn (Suc a + j))"
    using Suc.prems(1) by (metis add_Suc_shift Suc_less_eq)
  have bound: "int (Suc a + n) \<le> maxRetries opts" using Suc.prems(2) by simp
  from Suc.IH [OF rest bound]
  obtain le' where "retry_loop opts rnd fn (Suc a) (Some (thrown (fn a))) (tr @ retried opts rnd (thrown (fn a)) a)
          = retry_loop opts rnd fn (Suc a + n) le'
              ((tr @ retried opts rnd (thrown (fn a)) a) @ retried_from opts rnd fn (Suc a) n)"
    by blast
  then show ?case using retry_loop_step [of fn a opts rnd le tr] first lt by auto
qed

lemma retry_loop_retried0:
  assumes "\<forall>j<n. retryableFailure (fn j)" "int n \<le> maxRetries opts"
  shows "\<exists>le'. retry_loop opts rnd fn 0 None [] =
         retry_loop opts rnd fn n le' (retried_from opts rnd fn 0 n)"
  using retry_loop_retried [of n fn 0 opts rnd None "[]"] assms by simp

lemma retry_loop_last:
  assumes "int k \<le> maxRetries opts" "fn k = Inl e" "nonRetryable e \<or> int k = maxRetries opts"
  shows "retry_loop opts rnd fn k le tr = (Inl (Some e), tr @ [Invoke k])"
  using assms by (subst retry_loop.simps) auto

lemma invocations_append: "invocations (xs @ ys) = invocations xs + invocations ys"
  by (simp add: invocations_def)
lemma sleeps_append: "sleeps (xs @ ys) = sleeps xs + sleeps ys"
  by (simp add: sleeps_def)
lemma observations_append: "observations (xs @ ys) = observations xs + observations ys"
  by (simp add: observations_def)

lemma invocations_retried: "invocations (retried opts rnd e a) = 1"
  by (simp add: invocations_def retried_def Let_def)
lemma sleeps_retried: "sleeps (retried opts rnd e a) = 1"
  by (simp add: sleeps_def retried_def Let_def)
lemma observations_retried: "observations (retried opts rnd e a) = (if onRetry opts then 1 else 0)"
  by (simp add: observations_def retried_def Let_def)

lemma invocations_retried_from: "invocations (retried_from opts rnd fn a n) = n"
  by (induction n arbitrary: a) (simp_all add: invocations_append invocations_retried, simp add: invocations_def)
lemma sleeps_retried_from: "sleeps (retried_from opts rnd fn a n) = n"
  by (induction n arbitrary: a) (simp_all add: sleeps_append sleeps_retried, simp add: sleeps_def)
lemma observations_retried_from: "observations (retried_from opts rnd fn a n) = (if onRetry opts then n else 0)"
  by (induction n arbitrary: a) (simp_all add: observations_append observations_retried, simp_all add: observations_def)

text \<open>
  C4. When the wrapped operation fails with a non-retryable error (authentication
  rejection, or a network failure with status 404) at attempt \<open>k\<close>, \<open>withRetry\<close> throws
  that error and the run ends with that invocation: the events are those of the \<open>k\<close>
  earlier, retried attempts followed by the invocation \<open>k\<close> alone, with no observer call,
  no sleep and no further invocation after it.
\<close>

theorem withRetry_nonretryable_rethrown:
  assumes reached: "\<forall>j<k. retryableFailure (fn j)"
    and inrange: "int k \<le> maxRetries (spreadOptions defaultOptions options)"
    and fails: "fn k = Inl e" and fatal: "nonRetryable e"
  shows "withRetry fn options rnd =
           (Inl (Some e), retried_from (spreadOptions defaultOptions options) rnd fn 0 k @ [Invoke k])
         \<and> invocations (snd (withRetry fn options rnd)) = k + 1
         \<and> sleeps (snd (withRetry fn options rnd)) = k
         \<and> observations (snd (withRetry fn options rnd)) \<le> k"
proof -
  let ?opts = "spreadOptions defaultOptions options"
  obtain le' where "retry_loop ?opts rnd fn 0 None [] = retry_loop ?opts rnd fn k le' (retried_from ?opts rnd fn 0 k)"
    using retry_loop_retried0 [of k fn ?opts rnd] reached inrange by blast
  then have eq: "withRetry fn options rnd = (Inl (Some e), retried_from ?opts rnd fn 0 k @ [Invoke k])"
    using retry_loop_last [of k ?opts fn e rnd le'] inrange fails fatal by (simp add: withRetry_def)
  show ?thesis unfolding eq
    by (simp add: invocations_append sleeps_append observations_append invocations_retried_from
        sleeps_retried_from observations_retried_from)
      (simp add: invocations_def sleeps_def observations_def)
qed


lemmas concrete_defs = always_rate_limited_def no_jitter_def one_retry_def auth_on_second_def
  schema_parse_def invalid_then_valid_def always_invalid_def noOptions_def spreadOptions_def defaultOptions_def
  nonRetryable_def RateLimitError_def AuthenticationError_def ZodError_def NetworkError_def
  calculateDelay_def retryableFailure_def thrown_def

theorem withRetry_nonretryable_rethrown_witness:
  "retryableFailure (auth_on_second 0)
   \<and> int 1 \<le> maxRetries (spreadOptions defaultOptions noOptions)
   \<and> nonRetryable (AuthenticationError ''Access token expired or invalid.'')
   \<and> withRetry auth_on_second noOptions no_jitter =
       (Inl (Some (AuthenticationError ''Access token expired or invalid.'')),
        [Invoke 0, Sleep 1000, Invoke 1])"
  using withRetry_nonretryable_rethrown [of 1 auth_on_second noOptions
      "AuthenticationError ''Access token expired or invalid.''" no_jitter]
  by (simp add: concrete_defs retried_def)

text \<open>
  C5, as amended. An operation that fails with a retryable error on every invocation is
  invoked \<open>maxRetries + 1\<close> times (the first attempt and \<open>maxRetries\<close> retries), for
  \<open>maxRetries \<ge> 0\<close>, and the error of the last attempt is thrown.
\<close>

theorem withRetry_exhausted:
  assumes nonneg: "0 \<le> maxRetries (spreadOptions defaultOptions options)"
    and always: "\<forall>j. retryableFailure (fn j)"
  shows "withRetry fn options rnd =
           (Inl (Some (thrown (fn (nat (maxRetries (spreadOptions defaultOptions options)))))),
            retried_from (spreadOptions defaultOptions options) rnd fn 0
              (nat (maxRetries (spreadOptions defaultOptions options)))
              @ [Invoke (nat (maxRetries (spreadOptions defaultOptions options)))])
         \<and> int (invocations (snd (withRetry fn options rnd)))
             = maxRetries (spreadOptions defaultOptions options) + 1"
proof -
  let ?opts = "spreadOptions defaultOptions options"
  let ?m = "nat (maxRetries ?opts)"
  have m: "int ?m = maxRetries ?opts" using nonneg by simp
  have "retryableFailure (fn ?m)" using always by blast
  then obtain e where e: "fn ?m = Inl e"
    by (cases "fn ?m") (auto simp: retryableFailure_def)
  obtain le' where "retry_loop ?opts rnd fn 0 None [] = retry_loop ?opts rnd fn ?m le' (retried_from ?opts rnd fn 0 ?m)"
    using retry_loop_retried0 [of ?m fn ?opts rnd] always m by auto
  then have eq: "withRetry fn options rnd = (Inl (Some (thrown (fn ?m))), retried_from ?opts rnd fn 0 ?m @ [Invoke ?m])"
    using retry_loop_last [of ?m ?opts fn e rnd le'] m e by (simp add: withRetry_def thrown_def)
  have "invocations (retried_from ?opts rnd fn 0 ?m @ [Invoke ?m]) = ?m + 1"
    by (simp add: invocations_append invocations_retried_from) (simp add: invocations_def)
  then show ?thesis unfolding eq using m by simp
qed

theorem withRetry_exhausted_witness:
  "0 \<le> maxRetries (spreadOptions defaultOptions one_retry)
   \<and> retryableFailure (always_rate_limited 0)
   \<and> withRetry always_rate_limited one_retry no_jitter =
       (Inl (Some (RateLimitError ''Rate limited by API'')), [Invoke 0, Sleep 1000, Invoke 1])
   \<and> invocations (snd (withRetry always_rate_limited one_retry no_jitter)) = 2"
  using withRetry_exhausted [of one_retry always_rate_limited no_jitter]
  by (simp add: concrete_defs retried_def invocations_def)

text \<open>
  C5 as stated (\<open>maxRetries\<close> invocations in total) fails: with \<open>maxRetries = 1\<close> an
  operation that is always rate limited is invoked twice.
\<close>

theorem withRetry_invocations_counterexample:
  "maxRetries (spreadOptions defaultOptions one_retry) = 1
   \<and> invocations (snd (withRetry always_rate_limited one_retry no_jitter)) = 2"
  by (simp add: withRetry_def retry_loop.simps concrete_defs invocations_def)

section \<open>The network call\<close>

lemma validationFailure_retryable:
  "validationFailure parse h \<Longrightarrow> retryableFailure (request (Some parse) h)"
  by (auto simp: validationFailure_def request_def retryableFailure_def nonRetryable_def
      split: http.splits sum.splits)

lemma retry_loop_trace_extends:
  "\<exists>ext. snd (retry_loop opts rnd fn a le tr) = tr @ ext"
proof (induction opts rnd fn a le tr rule: retry_loop.induct)
  case (1 opts rnd fn attempt lastError tr)
  show ?case
  proof (cases "int attempt \<le> maxRetries opts")
    case False
    then show ?thesis by (subst retry_loop.simps) simp
  next
    case True
    show ?thesis
    proof (cases "fn attempt")
      case (Inr v)
      then show ?thesis using True by (subst retry_loop.simps) simp
    next
      case (Inl e)
      show ?thesis
      proof (cases "int attempt = maxRetries opts \<or> nonRetryable e")
        case stop: True
        then show ?thesis using True Inl by (subst retry_loop.simps) auto
      next
        case go: False
        let ?delay = "calculateDelay attempt (baseDelay opts) (maxDelay opts) (rnd attempt)"
        let ?tr = "tr @ [Invoke attempt] @ (if onRetry opts then [OnRetry e (attempt + 1) ?delay] else [])
                        @ [Sleep ?delay]"
        have step: "retry_loop opts rnd fn attempt lastError tr
                      = retry_loop opts rnd fn (Suc attempt) (Some e) ?tr"
          using True Inl go by (subst retry_loop.simps) (simp add: Let_def)
        obtain ext where "snd (retry_loop opts rnd fn (Suc attempt) (Some e) ?tr) = ?tr @ ext"
          using "1.IH" [OF True Inl _ _ refl] go by auto
        then have "snd (retry_loop opts rnd fn attempt lastError tr)
                     = tr @ ([Invoke attempt] @ (if onRetry opts then [OnRetry e (attempt + 1) ?delay] else [])
                        @ [Sleep ?delay] @ ext)"
          unfolding step by simp
        then show ?thesis by blast
      qed
    qed
  qed
qed

lemma retried_from_snoc:
  "retried_from opts rnd fn a (Suc n)
     = retried_from opts rnd fn a n @ retried opts rnd (thrown (fn (a + n))) (a + n)"
proof (induction n arbitrary: a)
  case 0
  show ?case by simp
next
  case (Suc n)
  have "retried_from opts rnd fn a (Suc (Suc n))
          = retried opts rnd (thrown (fn a)) a @ retried_from opts rnd fn (Suc a) (Suc n)"
    by simp
  also have "\<dots> = retried opts rnd (thrown (fn a)) a
                  @ retried_from opts rnd fn (Suc a) n @ retried opts rnd (thrown (fn (Suc a + n))) (Suc a + n)"
    by (simp only: Suc.IH [of "Suc a"])
  finally show ?case by simp
qed

lemma retry_loop_starts:
  assumes "int a \<le> maxRetries opts"
  shows "\<exists>rest. snd (retry_loop opts rnd fn a le tr) = tr @ Invoke a # rest"
proof (cases "fn a")
  case (Inr v)
  then show ?thesis using assms by (subst retry_loop.simps) simp
next
  case (Inl e)
  show ?thesis
  proof (cases "int a = maxRetries opts \<or> nonRetryable e")
    case True
    then show ?thesis using assms Inl by (subst retry_loop.simps) auto
  next
    case False
    let ?delay = "calculateDelay a (baseDelay opts) (maxDelay opts) (rnd a)"
    let ?tr = "tr @ [Invoke a] @ (if onRetry opts then [OnRetry e (a + 1) ?delay] else []) @ [Sleep ?delay]"
    have step: "retry_loop opts rnd fn a le tr = retry_loop opts rnd fn (Suc a) (Some e) ?tr"
      using assms Inl False by (subst retry_loop.simps) (simp add: Let_def)
    obtain ext where "snd (retry_loop opts rnd fn (Suc a) (Some e) ?tr) = ?tr @ ext"
      using retry_loop_trace_extends by blast
    then have "snd (retry_loop opts rnd fn a le tr)
                 = tr @ Invoke a # ((if onRetry opts then [OnRetry e (a + 1) ?delay] else []) @ [Sleep ?delay] @ ext)"
      unfolding step by simp
    then show ?thesis by blast
  qed
qed

text \<open>
  C6, as amended. A validation failure is retried like any other retryable failure. When
  every attempt before attempt \<open>k\<close> ends in a retryable failure (of any kind) and the
  validator rejects the response of attempt \<open>k\<close>, then: for \<open>k < 5\<close> the observer is
  called with the validation error, the backoff delay of attempt \<open>k\<close> is slept, and the
  request is issued again (attempt \<open>k + 1\<close>); for \<open>k = 5\<close>, the last attempt of the
  default budget, the validation error is propagated, after six requests. The error
  is a \<open>ZodError\<close>.
\<close>

theorem fetch_validation_failure_retried:
  assumes token: "accessToken \<noteq> []"
    and reached: "\<forall>j<k. retryableFailure (request (Some parse) (net j))"
    and invalid: "validationFailure parse (net k)"
  shows "(k < 5 \<longrightarrow>
           (\<exists>rest. snd (fetch accessToken (Some parse) net rnd) =
              retried_from (defaultOptions\<lparr>onRetry := True\<rparr>) rnd (\<lambda>j. request (Some parse) (net j)) 0 k
              @ [Invoke k,
                 OnRetry (thrown (request (Some parse) (net k))) (k + 1) (calculateDelay k 1000 60000 (rnd k)),
                 Sleep (calculateDelay k 1000 60000 (rnd k)),
                 Invoke (Suc k)] @ rest))
       \<and> (k = 5 \<longrightarrow>
             fetch accessToken (Some parse) net rnd =
               (Inl (Some (thrown (request (Some parse) (net 5)))),
                retried_from (defaultOptions\<lparr>onRetry := True\<rparr>) rnd (\<lambda>j. request (Some parse) (net j)) 0 5
                  @ [Invoke 5])
           \<and> invocations (snd (fetch accessToken (Some parse) net rnd)) = 6)
       \<and> name (thrown (request (Some parse) (net k))) = ''ZodError''"
proof -
  let ?fn = "\<lambda>j. request (Some parse) (net j)"
  let ?opts = "defaultOptions\<lparr>onRetry := True\<rparr>"
  have opts: "spreadOptions defaultOptions (noOptions\<lparr>onRetry_opt := True\<rparr>) = ?opts"
    by (simp add: spreadOptions_def noOptions_def defaultOptions_def)
  have fetch: "fetch accessToken (Some parse) net rnd = retry_loop ?opts rnd ?fn 0 None []"
    using token by (simp add: fetch_def withRetry_def opts)
  have max: "maxRetries ?opts = 5" and base: "baseDelay ?opts = 1000" and md: "maxDelay ?opts = 60000"
    and obs: "onRetry ?opts"
    by (simp_all add: defaultOptions_def)
  have rk: "retryableFailure (?fn k)" by (rule validationFailure_retryable [OF invalid])
  have a: "\<exists>rest. snd (fetch accessToken (Some parse) net rnd) =
              retried_from ?opts rnd ?fn 0 k
              @ [Invoke k, OnRetry (thrown (?fn k)) (k + 1) (calculateDelay k 1000 60000 (rnd k)),
                 Sleep (calculateDelay k 1000 60000 (rnd k)), Invoke (Suc k)] @ rest" if "k < 5"
  proof -
    have "\<forall>j<Suc k. retryableFailure (?fn j)" using reached rk by (simp add: less_Suc_eq)
    moreover have "int (Suc k) \<le> maxRetries ?opts" using that max by simp
    ultimately obtain le' where l: "retry_loop ?opts rnd ?fn 0 None [] =
        retry_loop ?opts rnd ?fn (Suc k) le' (retried_from ?opts rnd ?fn 0 (Suc k))"
      using retry_loop_retried0 [of "Suc k" ?fn ?opts rnd] by blast
    have "int (Suc k) \<le> maxRetries ?opts" using that max by simp
    then obtain rest where "snd (retry_loop ?opts rnd ?fn (Suc k) le' (retried_from ?opts rnd ?fn 0 (Suc k)))
        = retried_from ?opts rnd ?fn 0 (Suc k) @ Invoke (Suc k) # rest"
      using retry_loop_starts by blast
    moreover have "retried_from ?opts rnd ?fn 0 (Suc k)
        = retried_from ?opts rnd ?fn 0 k @ retried ?opts rnd (thrown (?fn k)) k"
      using retried_from_snoc [of ?opts rnd ?fn 0 k] by simp
    moreover have "retried ?opts rnd (thrown (?fn k)) k
        = [Invoke k, OnRetry (thrown (?fn k)) (k + 1) (calculateDelay k 1000 60000 (rnd k)),
           Sleep (calculateDelay k 1000 60000 (rnd k))]"
      by (simp add: retried_def Let_def defaultOptions_def)
    ultimately have "snd (fetch accessToken (Some parse) net rnd) =
              retried_from ?opts rnd ?fn 0 k
              @ [Invoke k, OnRetry (thrown (?fn k)) (k + 1) (calculateDelay k 1000 60000 (rnd k)),
                 Sleep (calculateDelay k 1000 60000 (rnd k)), Invoke (Suc k)] @ rest"
      unfolding fetch l by simp
    then show ?thesis by blast
  qed
  have b: "fetch accessToken (Some parse) net rnd =
             (Inl (Some (thrown (?fn 5))), retried_from ?opts rnd ?fn 0 5 @ [Invoke 5])" if "k = 5"
  proof -
    have "retryableFailure (?fn 5)" using rk that by simp
    then obtain e where e: "?fn 5 = Inl e"
      by (cases "?fn 5") (auto simp: retryableFailure_def)
    have "\<forall>j<5. retryableFailure (?fn j)" using reached that by simp
    moreover have "int 5 \<le> maxRetries ?opts" using max by simp
    ultimately obtain le' where "retry_loop ?opts rnd ?fn 0 None [] =
        retry_loop ?opts rnd ?fn 5 le' (retried_from ?opts rnd ?fn 0 5)"
      using retry_loop_retried0 [of 5 ?fn ?opts rnd] by blast
    then show ?thesis
      using retry_loop_last [of 5 ?opts ?fn e rnd le'] max e by (simp add: fetch thrown_def)
  qed
  have c: "invocations (retried_from ?opts rnd ?fn 0 5 @ [Invoke 5]) = 6"
    by (simp add: invocations_append invocations_retried_from) (simp add: invocations_def)
  have d: "name (thrown (?fn k)) = ''ZodError''"
    using invalid
    by (auto simp: validationFailure_def request_def thrown_def split: http.splits sum.splits)
  have A: "k < 5 \<longrightarrow>
           (\<exists>rest. snd (fetch accessToken (Some parse) net rnd) =
              retried_from ?opts rnd ?fn 0 k
              @ [Invoke k, OnRetry (thrown (?fn k)) (k + 1) (calculateDelay k 1000 60000 (rnd k)),
                 Sleep (calculateDelay k 1000 60000 (rnd k)), Invoke (Suc k)] @ rest)"
    using a by (rule impI)
  have B: "k = 5 \<longrightarrow>
             fetch accessToken (Some parse) net rnd =
               (Inl (Some (thrown (?fn 5))), retried_from ?opts rnd ?fn 0 5 @ [Invoke 5])
           \<and> invocations (snd (fetch accessToken (Some parse) net rnd)) = 6"
  proof (rule impI)
    assume k: "k = 5"
    show "fetch accessToken (Some parse) net rnd =
               (Inl (Some (thrown (?fn 5))), retried_from ?opts rnd ?fn 0 5 @ [Invoke 5])
           \<and> invocations (snd (fetch accessToken (Some parse) net rnd)) = 6"
      using b [OF k] c by simp
  qed
  show ?thesis using A B d by (intro conjI)
qed

theorem fetch_validation_failure_retried_witness:
  "''token'' \<noteq> []
   \<and> retryableFailure (request (Some schema_parse) (busy_then_invalid 0))
   \<and> validationFailure schema_parse (busy_then_invalid 1)
   \<and> (\<exists>rest. snd (fetch ''token'' (Some schema_parse) busy_then_invalid no_jitter) =
          [Invoke 0, OnRetry (NetworkError ''Request failed: 500 Server Error'' (Some 500)) 1 1000, Sleep 1000,
           Invoke 1, OnRetry (ZodError ''Invalid input'') 2 2000, Sleep 2000,
           Invoke 2] @ rest)
   \<and> validationFailure schema_parse (always_invalid 5)
   \<and> fst (fetch ''token'' (Some schema_parse) always_invalid no_jitter) = Inl (Some (ZodError ''Invalid input''))
   \<and> invocations (snd (fetch ''token'' (Some schema_parse) always_invalid no_jitter)) = 6"
proof -
  have t: "''token'' \<noteq> []" by simp
  have r0: "retryableFailure (request (Some schema_parse) (busy_then_invalid 0))"
    by (simp add: busy_then_invalid_def concrete_defs request_def ok_def)
  have r: "\<forall>j<1. retryableFailure (request (Some schema_parse) (busy_then_invalid j))"
    using r0 by simp
  have v: "validationFailure schema_parse (busy_then_invalid 1)"
    by (simp add: busy_then_invalid_def concrete_defs validationFailure_def ok_def)
  have pre: "retried_from (defaultOptions\<lparr>onRetry := True\<rparr>) no_jitter
               (\<lambda>j. request (Some schema_parse) (busy_then_invalid j)) 0 1
             = [Invoke 0, OnRetry (NetworkError ''Request failed: 500 Server Error'' (Some 500)) 1 1000, Sleep 1000]"
    by (simp add: retried_def Let_def busy_then_invalid_def concrete_defs request_def ok_def show_int_def
        decimal.simps)
  have th: "thrown (request (Some schema_parse) (busy_then_invalid 1)) = ZodError ''Invalid input''"
    by (simp add: busy_then_invalid_def concrete_defs request_def ok_def)
  have d: "calculateDelay 1 1000 60000 (no_jitter 1) = 2000"
    by (simp add: concrete_defs Let_def)
  have lt: "1 < (5::nat)" by simp
  have "\<exists>rest. snd (fetch ''token'' (Some schema_parse) busy_then_invalid no_jitter) =
          retried_from (defaultOptions\<lparr>onRetry := True\<rparr>) no_jitter
               (\<lambda>j. request (Some schema_parse) (busy_then_invalid j)) 0 1
          @ [Invoke 1,
             OnRetry (thrown (request (Some schema_parse) (busy_then_invalid 1))) (1 + 1)
               (calculateDelay 1 1000 60000 (no_jitter 1)),
             Sleep (calculateDelay 1 1000 60000 (no_jitter 1)),
             Invoke (Suc 1)] @ rest"
    by (rule mp [OF conjunct1 [OF fetch_validation_failure_retried [OF t r v, of no_jitter]] lt])
  then have a: "\<exists>rest. snd (fetch ''token'' (Some schema_parse) busy_then_invalid no_jitter) =
          [Invoke 0, OnRetry (NetworkError ''Request failed: 500 Server Error'' (Some 500)) 1 1000, Sleep 1000,
           Invoke 1, OnRetry (ZodError ''Invalid input'') 2 2000, Sleep 2000,
           Invoke 2] @ rest"
    unfolding pre th d by (simp add: numeral_2_eq_2)
  have h: "\<forall>j<5. retryableFailure (request (Some schema_parse) (always_invalid j))"
    by (simp add: concrete_defs request_def ok_def)
  have v5: "validationFailure schema_parse (always_invalid 5)"
    by (simp add: concrete_defs validationFailure_def ok_def)
  note last = mp [OF conjunct1 [OF conjunct2 [OF fetch_validation_failure_retried [OF t h v5, of no_jitter]]] refl]
  have b: "fst (fetch ''token'' (Some schema_parse) always_invalid no_jitter)
          = Inl (Some (thrown (request (Some schema_parse) (always_invalid 5))))"
    by (simp only: conjunct1 [OF last] fst_conv)
  have c: "invocations (snd (fetch ''token'' (Some schema_parse) always_invalid no_jitter)) = 6"
    by (rule conjunct2 [OF last])
  from b have b': "fst (fetch ''token'' (Some schema_parse) always_invalid no_jitter)
          = Inl (Some (ZodError ''Invalid input''))"
    by (simp add: concrete_defs request_def ok_def)
  show ?thesis using t r0 v a v5 b' c by (intro conjI)
qed

text \<open>
  C6 as stated fails: the validator rejects the first response, the request is issued a
  second time after the backoff sleep, and the validation error is not propagated.
\<close>

theorem fetch_validation_counterexample:
  "validationFailure schema_parse (invalid_then_valid 0)
   \<and> fetch ''token'' (Some schema_parse) invalid_then_valid no_jitter =
       (Inr ''{items: []}'', [Invoke 0, OnRetry (ZodError ''Invalid input'') 1 1000, Sleep 1000, Invoke 1])"
  by (simp add: fetch_def withRetry_def retry_loop.simps concrete_defs validationFailure_def ok_def request_def)

section \<open>File reference extraction\<close>

lemma scanPart_occ: "scanPart refs p = foldl addOccurrence refs (partOccurrence p)"
  by (cases p) (auto simp: addOccurrence_def split: option.splits)

lemma scanAttachment_occ: "scanAttachment refs a = foldl addOccurrence refs (attachmentOccurrence a)"
  by (auto simp: scanAttachment_def attachmentOccurrence_def addOccurrence_def split: option.splits)

lemma scanCitation_occ: "scanCitation refs c = foldl addOccurrence refs (citationOccurrence c)"
  by (auto simp: scanCitation_def citationOccurrence_def addOccurrence_def split: option.splits)

lemma foldl_concat_occ:
  assumes "\<And>refs x. f refs x = foldl addOccurrence refs (g x)"
  shows "foldl f refs xs = foldl addOccurrence refs (concat (map g xs))"
  by (induction xs arbitrary: refs) (simp_all add: assms)

lemma scanNode_occ: "scanNode refs node = foldl addOccurrence refs (nodeOccurrences node)"
  by (simp add: scanNode_def nodeOccurrences_def Let_def
      foldl_concat_occ [of scanPart partOccurrence, OF scanPart_occ]
      foldl_concat_occ [of scanAttachment attachmentOccurrence, OF scanAttachment_occ]
      foldl_concat_occ [of scanCitation citationOccurrence, OF scanCitation_occ]
      split: option.splits)

lemma extract_occ:
  "extractFileReferences detail = map snd (foldl addOccurrence [] (occurrences detail))"
  by (simp add: extractFileReferences_def occurrences_def
      foldl_concat_occ [of scanNode nodeOccurrences, OF scanNode_occ])

lemma keyed_addOccurrence: "keyed refs \<Longrightarrow> keyed (addOccurrence refs r)"
  by (auto simp: keyed_def addOccurrence_def has_def set_new_def)

lemma keyed_foldl: "keyed refs \<Longrightarrow> keyed (foldl addOccurrence refs occs)"
  by (induction occs arbitrary: refs) (simp_all add: keyed_addOccurrence)

lemma keyed_ids: "keyed refs \<Longrightarrow> map fileId (map snd refs) = map fst refs"
  by (induction refs) (auto simp: keyed_def)

lemma filter_absent:
  "keyed refs \<Longrightarrow> \<not> has refs fid \<Longrightarrow> filter (\<lambda>x. fileId x = fid) (map snd refs) = []"
  by (induction refs) (auto simp: keyed_def has_def)

lemma foldl_present:
  "has refs fid \<Longrightarrow>
   filter (\<lambda>x. fileId x = fid) (map snd (foldl addOccurrence refs occs))
     = filter (\<lambda>x. fileId x = fid) (map snd refs)"
proof (induction occs arbitrary: refs)
  case Nil
  then show ?case by simp
next
  case (Cons r occs)
  have "has (addOccurrence refs r) fid"
    using Cons.prems by (auto simp: addOccurrence_def has_def set_new_def)
  from Cons.IH [OF this] show ?case
    using Cons.prems by (auto simp: addOccurrence_def has_def set_new_def)
qed

lemma foldl_first_wins:
  assumes "keyed refs" "\<not> has refs fid" "fid \<noteq> []"
    and "find (\<lambda>x. fileId x = fid) occs = Some r"
  shows "filter (\<lambda>x. fileId x = fid) (map snd (foldl addOccurrence refs occs)) = [r]"
  using assms
proof (induction occs arbitrary: refs)
  case Nil
  then show ?case by simp
next
  case (Cons o1 occs)
  show ?case
  proof (cases "fileId o1 = fid")
    case True
    then have r: "o1 = r" using Cons.prems(4) by simp
    have add: "addOccurrence refs o1 = refs @ [(fid, r)]"
      using True r Cons.prems(2,3) by (simp add: addOccurrence_def set_new_def)
    have "has (refs @ [(fid, r)]) fid" by (simp add: has_def)
    from foldl_present [OF this, of occs]
    show ?thesis
      using add True r filter_absent [OF Cons.prems(1,2)] by simp
  next
    case False
    have k: "keyed (addOccurrence refs o1)" by (rule keyed_addOccurrence [OF Cons.prems(1)])
    have h: "\<not> has (addOccurrence refs o1) fid"
      using False Cons.prems(2) by (auto simp: addOccurrence_def has_def set_new_def)
    have f: "find (\<lambda>x. fileId x = fid) occs = Some r" using False Cons.prems(4) by simp
    from Cons.IH [OF k h Cons.prems(3) f] show ?thesis by simp
  qed
qed

lemma keyed_empty: "keyed []" by (simp add: keyed_def)

text \<open>
  C7. For a conversation in which a (non-empty) file identifier occurs at one or more
  places, whatever their provenance, \<open>extractFileReferences\<close> returns exactly one
  reference with that identifier, and it is the reference of the first occurrence in scan
  order, with that occurrence's provenance and filename; every later occurrence is
  discarded.
\<close>

theorem extractFileReferences_first_occurrence:
  assumes "fid \<noteq> []" and "find (\<lambda>x. fileId x = fid) (occurrences detail) = Some r"
  shows "filter (\<lambda>x. fileId x = fid) (extractFileReferences detail) = [r]"
  using foldl_first_wins [OF keyed_empty _ assms(1) assms(2)]
  by (simp add: extract_occ has_def)

theorem extractFileReferences_first_occurrence_witness:
  "find (\<lambda>x. fileId x = ''file-abc'') (occurrences dup_detail)
     = Some \<lparr>fileId = ''file-abc'', filename = Some ''report.pdf'', source = attachment\<rparr>
   \<and> length (filter (\<lambda>x. fileId x = ''file-abc'') (occurrences dup_detail)) = 2
   \<and> filter (\<lambda>x. fileId x = ''file-abc'') (extractFileReferences dup_detail)
     = [\<lparr>fileId = ''file-abc'', filename = Some ''report.pdf'', source = attachment\<rparr>]"
  using extractFileReferences_first_occurrence [of "''file-abc''" dup_detail
      "\<lparr>fileId = ''file-abc'', filename = Some ''report.pdf'', source = attachment\<rparr>"]
  by (simp add: dup_detail_def occurrences_def nodeOccurrences_def attachmentOccurrence_def
      citationOccurrence_def citationFileId_def citationTitle_def nullish_def)

text \<open>
  C10. The identifiers of the references returned by \<open>extractFileReferences\<close> are
  pairwise distinct and none is the empty string; an image asset pointer that does not
  start with \<open>file-service://\<close>, or that has nothing after it, leaves the map of
  references as it was.
\<close>

theorem extractFileReferences_distinct_nonempty:
  "distinct (map fileId (extractFileReferences detail))
   \<and> [] \<notin> set (map fileId (extractFileReferences detail))
   \<and> (\<not> prefix FILE_SERVICE_PREFIX pointer \<or> pointer = FILE_SERVICE_PREFIX
        \<longrightarrow> scanPart refs (PObject ct (Some pointer)) = refs)"
proof -
  have k: "keyed (foldl addOccurrence [] (occurrences detail))"
    by (rule keyed_foldl [OF keyed_empty])
  have ids: "map fileId (extractFileReferences detail) = map fst (foldl addOccurrence [] (occurrences detail))"
    using keyed_ids [OF k] by (simp add: extract_occ)
  have a: "distinct (map fileId (extractFileReferences detail))"
    using k by (simp add: ids keyed_def)
  have b: "[] \<notin> set (map fileId (extractFileReferences detail))"
    using k unfolding ids keyed_def by force
  have c: "scanPart refs (PObject ct (Some pointer)) = refs"
    if "\<not> prefix FILE_SERVICE_PREFIX pointer \<or> pointer = FILE_SERVICE_PREFIX"
    using that by (auto simp: extractFileIdFromPointer_def)
  show ?thesis using a b c by blast
qed


theorem extractFileReferences_distinct_nonempty_witness:
  "\<not> prefix FILE_SERVICE_PREFIX ''sediment://file_1''
   \<and> scanPart [] (PObject (Some ''image_asset_pointer'') (Some ''sediment://file_1'')) = []
   \<and> scanPart [] (PObject (Some ''image_asset_pointer'') (Some ''file-service://'')) = []"
  using extractFileReferences_distinct_nonempty [of dup_detail "''sediment://file_1''" "[]"
      "Some ''image_asset_pointer''"]
    extractFileReferences_distinct_nonempty [of dup_detail "''file-service://''" "[]"
      "Some ''image_asset_pointer''"]
  by (simp add: FILE_SERVICE_PREFIX_def)

section \<open>The download loop\<close>

lemma length_remove_nth: "i < length xs \<Longrightarrow> length (remove_nth i xs) = length xs - 1"
  by (simp add: remove_nth_def)

lemma set_remove_nth: "set (remove_nth i xs) \<subseteq> set xs"
  by (auto simp: remove_nth_def dest: in_set_takeD in_set_dropD)

lemma exec_invariant:
  assumes step: "\<And>e s s'. P s \<Longrightarrow> fire c d w e s = Some s' \<Longrightarrow> P s'"
    and "P s" and "exec c d w steps s = Some s'"
  shows "P s'"
  using assms(2,3)
proof (induction steps arbitrary: s)
  case Nil
  then show ?case by simp
next
  case (Cons e es)
  then obtain s1 where s1: "fire c d w e s = Some s1" and rest: "exec c d w es s1 = Some s'"
    by (auto split: option.splits)
  from Cons.IH [OF step [OF Cons.prems(1) s1] rest] show ?case .
qed

text \<open>What each step requires and gives.\<close>

lemma fire_Start:
  assumes "fire c d w Start s = Some s'"
  obtains item rest where "pc s = Filling" "int (length (inProgress s)) < c" "queue s = item # rest"
    "s' = s\<lparr>queue := rest, inProgress := inProgress s @ [item], started := started s @ [item],
            pc := (if rest \<noteq> [] \<and> d > 0 then Sleeping else Filling)\<rparr>"
  using assms by (simp split: if_splits list.splits)

lemma fire_Exit:
  assumes "fire c d w Exit s = Some s'"
  obtains "pc s = Filling" "\<not> (int (length (inProgress s)) < c \<and> queue s \<noteq> [])"
    "s' = s\<lparr>pc := (if inProgress s \<noteq> [] then Racing
                     else if queue s \<noteq> [] \<or> inProgress s \<noteq> [] then Filling else Returned)\<rparr>"
  using assms by (simp split: if_splits)

lemma fire_Complete:
  assumes "fire c d w (Complete i) s = Some s'"
  obtains vars e where "pc s = Sleeping \<or> pc s = Racing \<or> pc s = Raced" "i < length (inProgress s)"
      "w (inProgress s ! i) (shared s) = (vars, Some e)" "s' = s\<lparr>shared := vars, pc := Thrown e\<rparr>"
  | vars where "pc s = Sleeping \<or> pc s = Racing \<or> pc s = Raced" "i < length (inProgress s)"
      "w (inProgress s ! i) (shared s) = (vars, None)"
      "s' = s\<lparr>shared := vars, inProgress := remove_nth i (inProgress s),
              pc := (if pc s = Racing then Raced else pc s)\<rparr>"
  using assms by (simp split: if_splits prod.splits option.splits)

lemma fire_Wake:
  assumes "fire c d w Wake s = Some s'"
  obtains "pc s = Sleeping" "s' = s\<lparr>pc := Filling\<rparr>"
  using assms by (simp split: if_splits)

lemma fire_Resume:
  assumes "fire c d w Resume s = Some s'"
  obtains "pc s = Raced"
    "s' = s\<lparr>pc := (if queue s \<noteq> [] \<or> inProgress s \<noteq> [] then Filling else Returned)\<rparr>"
  using assms by (simp split: if_splits)

lemma fire_bounded:
  assumes "bounded c s" "fire c d w e s = Some s'"
  shows "bounded c s'"
proof (cases e)
  case Start
  with assms(2) have "fire c d w Start s = Some s'" by simp
  then show ?thesis using assms(1) by (elim fire_Start) (simp add: bounded_def)
next
  case Exit
  with assms(2) have "fire c d w Exit s = Some s'" by simp
  then show ?thesis using assms(1) by (elim fire_Exit) (simp add: bounded_def)
next
  case (Complete i)
  with assms(2) have "fire c d w (Complete i) s = Some s'" by simp
  then show ?thesis using assms(1)
    by (elim fire_Complete) (simp_all add: bounded_def length_remove_nth)
next
  case Wake
  with assms(2) have "fire c d w Wake s = Some s'" by simp
  then show ?thesis using assms(1) by (elim fire_Wake) (simp add: bounded_def)
next
  case Resume
  with assms(2) have "fire c d w Resume s = Some s'" by simp
  then show ?thesis using assms(1) by (elim fire_Resume) (simp add: bounded_def)
qed

lemma bounded_init: "bounded c (init_pool items v)"
  by (simp add: bounded_def init_pool_def)

lemma exec_bounded:
  assumes "exec c d w steps (init_pool items v) = Some s"
  shows "length (inProgress s) \<le> nat c"
proof -
  have "bounded c s"
    by (rule exec_invariant [where P = "bounded c", OF fire_bounded bounded_init assms])
  then show ?thesis by (simp add: bounded_def)
qed

lemma fire_shaped:
  assumes "shaped items s" "fire c d w e s = Some s'"
  shows "shaped items s'"
proof (cases e)
  case Start
  with assms(2) have "fire c d w Start s = Some s'" by simp
  then show ?thesis using assms(1) by (elim fire_Start) (auto simp: shaped_def)
next
  case Exit
  with assms(2) have "fire c d w Exit s = Some s'" by simp
  then show ?thesis using assms(1) by (elim fire_Exit) (auto simp: shaped_def)
next
  case (Complete i)
  with assms(2) have "fire c d w (Complete i) s = Some s'" by simp
  then show ?thesis using assms(1) set_remove_nth [of i "inProgress s"]
    by (elim fire_Complete) (auto simp: shaped_def)
next
  case Wake
  with assms(2) have "fire c d w Wake s = Some s'" by simp
  then show ?thesis using assms(1) by (elim fire_Wake) (auto simp: shaped_def)
next
  case Resume
  with assms(2) have "fire c d w Resume s = Some s'" by simp
  then show ?thesis using assms(1) by (elim fire_Resume) (auto simp: shaped_def)
qed

lemma shaped_init: "shaped items (init_pool items v)"
  by (simp add: shaped_def init_pool_def)

lemma exec_shaped:
  assumes "exec c d w steps (init_pool items v) = Some s"
  shows "shaped items s"
  by (rule exec_invariant [where P = "shaped items", OF fire_shaped shaped_init assms])

text \<open>Counting.\<close>

lemma fire_accounted:
  assumes w: "counts_once w" and "accounted n s" "fire c d w e s = Some s'"
  shows "accounted n s'"
proof (cases e)
  case Start
  with assms(3) have "fire c d w Start s = Some s'" by simp
  then show ?thesis using assms(2) by (elim fire_Start) (auto simp: accounted_def final_def)
next
  case Exit
  with assms(3) have "fire c d w Exit s = Some s'" by simp
  then show ?thesis using assms(2) by (elim fire_Exit) (auto simp: accounted_def final_def)
next
  case (Complete i)
  with assms(3) have f: "fire c d w (Complete i) s = Some s'" by simp
  from f show ?thesis
  proof (rule fire_Complete)
    fix vars e
    assume "s' = s\<lparr>shared := vars, pc := Thrown e\<rparr>"
    then show ?thesis by (simp add: accounted_def final_def)
  next
    fix vars
    assume pc: "pc s = Sleeping \<or> pc s = Racing \<or> pc s = Raced" and i: "i < length (inProgress s)"
      and r: "w (inProgress s ! i) (shared s) = (vars, None)"
      and s': "s' = s\<lparr>shared := vars, inProgress := remove_nth i (inProgress s),
              pc := (if pc s = Racing then Raced else pc s)\<rparr>"
    have "tally vars = tally (shared s) + 1"
      using w r unfolding counts_once_def by (metis fst_conv)
    moreover have "tally (shared s) + length (queue s) + length (inProgress s) = n"
      using assms(2) pc by (auto simp: accounted_def final_def)
    ultimately show ?thesis using i s' by (simp add: accounted_def length_remove_nth)
  qed
next
  case Wake
  with assms(3) have "fire c d w Wake s = Some s'" by simp
  then show ?thesis using assms(2) by (elim fire_Wake) (auto simp: accounted_def final_def)
next
  case Resume
  with assms(3) have "fire c d w Resume s = Some s'" by simp
  then show ?thesis using assms(2) by (elim fire_Resume) (auto simp: accounted_def final_def)
qed

lemma exec_accounted:
  assumes "counts_once w" "exec c d w steps (init_pool items v) = Some s" "pc s = Returned"
  shows "tally (shared s) = tally v + length items"
proof -
  have init: "accounted (tally v + length items) (init_pool items v)"
    by (simp add: accounted_def init_pool_def)
  have "accounted (tally v + length items) s"
    by (rule exec_invariant [where P = "accounted (tally v + length items)",
          OF fire_accounted [OF assms(1)] init assms(2)])
  moreover have "queue s = [] \<and> inProgress s = []"
    using exec_shaped [OF assms(2)] assms(3) by (simp add: shaped_def)
  ultimately show ?thesis using assms(3) by (simp add: accounted_def)
qed

text \<open>Rejections.\<close>

lemma fire_unthrown:
  assumes w: "never_rejects w" and "unthrown s" "fire c d w e s = Some s'"
  shows "unthrown s'"
proof (cases e)
  case Start
  with assms(3) have "fire c d w Start s = Some s'" by simp
  then show ?thesis using assms(2) by (elim fire_Start) (auto simp: unthrown_def)
next
  case Exit
  with assms(3) have "fire c d w Exit s = Some s'" by simp
  then show ?thesis using assms(2) by (elim fire_Exit) (auto simp: unthrown_def)
next
  case (Complete i)
  with assms(3) have f: "fire c d w (Complete i) s = Some s'" by simp
  from f show ?thesis
  proof (rule fire_Complete)
    fix vars e
    assume "w (inProgress s ! i) (shared s) = (vars, Some e)"
    then show ?thesis using w unfolding never_rejects_def by (metis snd_conv option.distinct(1))
  next
    fix vars
    assume "pc s = Sleeping \<or> pc s = Racing \<or> pc s = Raced"
      and "s' = s\<lparr>shared := vars, inProgress := remove_nth i (inProgress s),
              pc := (if pc s = Racing then Raced else pc s)\<rparr>"
    then show ?thesis by (auto simp: unthrown_def)
  qed
next
  case Wake
  with assms(3) have "fire c d w Wake s = Some s'" by simp
  then show ?thesis using assms(2) by (elim fire_Wake) (auto simp: unthrown_def)
next
  case Resume
  with assms(3) have "fire c d w Resume s = Some s'" by simp
  then show ?thesis using assms(2) by (elim fire_Resume) (auto simp: unthrown_def)
qed

lemma exec_unthrown:
  assumes "never_rejects w" "exec c d w steps (init_pool items v) = Some s"
  shows "unthrown s"
proof -
  have init: "unthrown (init_pool items v)" by (simp add: unthrown_def init_pool_def)
  show ?thesis
    by (rule exec_invariant [where P = unthrown, OF fire_unthrown [OF assms(1)] init assms(2)])
qed

text \<open>Every step uses up work, when the limit admits a worker.\<close>

lemma fire_work:
  assumes c: "0 < c" and "fire c d w e s = Some s'"
  shows "work s' < work s"
proof (cases e)
  case Start
  with assms(2) have "fire c d w Start s = Some s'" by simp
  then show ?thesis by (elim fire_Start) (simp add: work_def rank_def)
next
  case Exit
  with assms(2) have "fire c d w Exit s = Some s'" by simp
  then show ?thesis using c by (elim fire_Exit) (auto simp: work_def rank_def)
next
  case (Complete i)
  with assms(2) have "fire c d w (Complete i) s = Some s'" by simp
  then show ?thesis
    by (elim fire_Complete) (auto simp: work_def rank_def length_remove_nth)
next
  case Wake
  with assms(2) have "fire c d w Wake s = Some s'" by simp
  then show ?thesis by (elim fire_Wake) (simp add: work_def rank_def)
next
  case Resume
  with assms(2) have "fire c d w Resume s = Some s'" by simp
  then show ?thesis by (elim fire_Resume) (simp add: work_def rank_def)
qed

lemma exec_work:
  assumes "0 < c" "exec c d w steps s = Some s'"
  shows "length steps + work s' \<le> work s"
  using assms(2)
proof (induction steps arbitrary: s)
  case Nil
  then show ?case by simp
next
  case (Cons e es)
  then obtain s1 where s1: "fire c d w e s = Some s1" and rest: "exec c d w es s1 = Some s'"
    by (auto split: option.splits)
  from Cons.IH [OF rest] fire_work [OF assms(1) s1] show ?case by simp
qed

lemma fire_enabled:
  assumes "shaped items s" "\<not> final (pc s)"
  shows "\<exists>e s'. fire c d w e s = Some s'"
proof (cases "pc s")
  case Filling
  show ?thesis
  proof (cases "int (length (inProgress s)) < c \<and> queue s \<noteq> []")
    case True
    then obtain item rest where "queue s = item # rest" by (cases "queue s") auto
    then have "fire c d w Start s \<noteq> None" using True Filling by simp
    then show ?thesis by blast
  next
    case False
    then have "fire c d w Exit s \<noteq> None" using Filling by simp
    then show ?thesis by blast
  qed
next
  case Sleeping
  then have "fire c d w Wake s \<noteq> None" by simp
  then show ?thesis by blast
next
  case Racing
  then have "0 < length (inProgress s)" using assms(1) by (simp add: shaped_def)
  then have "fire c d w (Complete 0) s \<noteq> None"
    using Racing by (cases "w (inProgress s ! 0) (shared s)") (auto split: option.splits)
  then show ?thesis by blast
next
  case Raced
  then have "fire c d w Resume s \<noteq> None" by simp
  then show ?thesis by blast
next
  case Returned
  then show ?thesis using assms(2) by (simp add: final_def)
next
  case (Thrown e)
  then show ?thesis using assms(2) by (simp add: final_def)
qed

lemma exec_append:
  "exec c d w (xs @ ys) s = (case exec c d w xs s of None \<Rightarrow> None | Some s1 \<Rightarrow> exec c d w ys s1)"
  by (induction xs arbitrary: s) (auto split: option.splits)

lemma run_exists:
  assumes "0 < c" "shaped items s"
  shows "\<exists>steps s'. exec c d w steps s = Some s' \<and> final (pc s')"
  using assms(2)
proof (induction "work s" arbitrary: s rule: less_induct)
  case less
  show ?case
  proof (cases "final (pc s)")
    case True
    then have "exec c d w [] s = Some s \<and> final (pc s)" by simp
    then show ?thesis by blast
  next
    case False
    from fire_enabled [OF less.prems False]
    obtain e s1 where s1: "fire c d w e s = Some s1" by blast
    have "work s1 < work s" by (rule fire_work [OF assms(1) s1])
    moreover have "shaped items s1" by (rule fire_shaped [OF less.prems s1])
    ultimately obtain steps s' where "exec c d w steps s1 = Some s'" "final (pc s')"
      using less.hyps by blast
    then have "exec c d w (e # steps) s = Some s' \<and> final (pc s')" using s1 by simp
    then show ?thesis by blast
  qed
qed

text \<open>With a limit below one and a non-empty queue the loop spins: it never returns.\<close>

lemma fire_spin:
  assumes "c \<le> 0" "items \<noteq> []" "fire c d w e (init_pool items v) = Some s'"
  shows "s' = init_pool items v"
proof (cases e)
  case Start
  then show ?thesis using assms by (simp add: init_pool_def)
next
  case Exit
  then show ?thesis using assms by (simp add: init_pool_def)
next
  case (Complete i)
  then show ?thesis using assms by (simp add: init_pool_def)
next
  case Wake
  then show ?thesis using assms by (simp add: init_pool_def)
next
  case Resume
  then show ?thesis using assms by (simp add: init_pool_def)
qed

lemma exec_spin:
  assumes "c \<le> 0" "items \<noteq> []" "exec c d w steps (init_pool items v) = Some s"
  shows "s = init_pool items v"
  using assms(3)
proof (induction steps)
  case Nil
  then show ?case by simp
next
  case (Cons e es)
  then obtain s1 where s1: "fire c d w e (init_pool items v) = Some s1"
    and rest: "exec c d w es s1 = Some s" by (auto split: option.splits)
  from fire_spin [OF assms(1,2) s1] rest Cons.IH show ?case by simp
qed

section \<open>File downloads\<close>

lemma processFile_counts_once: "counts_once (processFile env accessToken)"
  by (simp add: counts_once_def processFile_def tally_def split: option.splits)

lemma processFile_never_rejects: "never_rejects (processFile env accessToken)"
  by (simp add: never_rejects_def processFile_def split: option.splits)

text \<open>
  C3. In every state that a run of the download loop reaches, in the conversation backup
  and in the file batch alike, the number of workers in flight is at most the concurrency
  limit (a limit below zero admits no worker at all).
\<close>

theorem in_flight_bounded:
  "(exec (concurrency bopts) (delay bopts) (processConversation benv token verb) bsteps
       (init_pool toDownload vars) = Some bs
      \<longrightarrow> length (inProgress bs) \<le> nat (concurrency bopts)
          \<and> (0 \<le> concurrency bopts \<longrightarrow> int (length (inProgress bs)) \<le> concurrency bopts))
   \<and> (exec (concurrency fopts) (delay fopts) (processFile fenv token) fsteps
       (init_pool refs noVars) = Some fs
      \<longrightarrow> length (inProgress fs) \<le> nat (concurrency fopts)
          \<and> (0 \<le> concurrency fopts \<longrightarrow> int (length (inProgress fs)) \<le> concurrency fopts))"
  using exec_bounded [of "concurrency bopts" "delay bopts" "processConversation benv token verb" bsteps toDownload vars bs]
    exec_bounded [of "concurrency fopts" "delay fopts" "processFile fenv token" fsteps refs noVars fs]
  by auto

lemma downloadFiles_Some:
  assumes "downloadFiles env accessToken allRefs options steps = Some r"
  obtains s where
    "exec (concurrency options) (delay options) (processFile env accessToken) steps
       (init_pool (activeRefs (skipFileIds options) allRefs) noVars) = Some s"
    "pc s = Returned" "r = fileResult (activeRefs (skipFileIds options) allRefs) s"
  using assms by (auto simp: downloadFiles_def Let_def split: option.splits if_splits)

text \<open>
  The counts of a file batch add up to its total, and the total is the number of
  references left after the previously failed ones.
\<close>

lemma downloadFiles_counts:
  assumes "downloadFiles env accessToken allRefs options steps = Some r"
  shows "total r = downloaded r + skipped r + failed r
       \<and> total r = length (activeRefs (skipFileIds options) allRefs)"
proof -
  from assms obtain s where
    ex: "exec (concurrency options) (delay options) (processFile env accessToken) steps
       (init_pool (activeRefs (skipFileIds options) allRefs) noVars) = Some s"
    and ret: "pc s = Returned" and r: "r = fileResult (activeRefs (skipFileIds options) allRefs) s"
    by (rule downloadFiles_Some)
  have "tally (shared s) = tally noVars + length (activeRefs (skipFileIds options) allRefs)"
    by (rule exec_accounted [OF processFile_counts_once ex ret])
  then show ?thesis using r by (simp add: fileResult_def tally_def noVars_def)
qed

text \<open>With a limit of one or more, the batch has a run that returns, and no run is longer than
  five steps for each reference and two.\<close>

lemma downloadFiles_returns:
  assumes "0 < concurrency options"
  shows "\<exists>steps r. downloadFiles env accessToken allRefs options steps = Some r"
proof -
  let ?refs = "activeRefs (skipFileIds options) allRefs"
  let ?w = "processFile env accessToken"
  obtain steps s where ex: "exec (concurrency options) (delay options) ?w steps (init_pool ?refs noVars) = Some s"
    and fin: "final (pc s)"
    using run_exists [OF assms shaped_init [of ?refs noVars], where d = "delay options" and w = ?w]
    by blast
  have "unthrown s" by (rule exec_unthrown [OF processFile_never_rejects ex])
  then have "pc s = Returned" using fin by (cases "pc s") (simp_all add: unthrown_def final_def)
  then have "downloadFiles env accessToken allRefs options steps = Some (fileResult ?refs s)"
    using ex by (simp add: downloadFiles_def)
  then show ?thesis by blast
qed

text \<open>With a limit below one and a reference left, no run of the batch returns.\<close>

lemma downloadFiles_hangs:
  assumes "concurrency options \<le> 0" "activeRefs (skipFileIds options) allRefs \<noteq> []"
  shows "downloadFiles env accessToken allRefs options steps = None"
proof (cases "exec (concurrency options) (delay options) (processFile env accessToken) steps
         (init_pool (activeRefs (skipFileIds options) allRefs) noVars)")
  case None
  then show ?thesis by (simp add: downloadFiles_def)
next
  case (Some s)
  from exec_spin [OF assms Some] have "pc s = Filling" using assms(2) by (simp add: init_pool_def)
  then show ?thesis using Some by (simp add: downloadFiles_def)
qed

lemma downloadFiles_run_length:
  assumes "0 < concurrency options" "downloadFiles env accessToken allRefs options steps = Some r"
  shows "length steps \<le> 5 * length allRefs + 2"
proof -
  from assms(2) obtain s where
    ex: "exec (concurrency options) (delay options) (processFile env accessToken) steps
       (init_pool (activeRefs (skipFileIds options) allRefs) noVars) = Some s"
    by (rule downloadFiles_Some)
  have "length (activeRefs (skipFileIds options) allRefs) \<le> length allRefs"
    by (simp add: activeRefs_def split: option.splits)
  then show ?thesis using exec_work [OF assms(1) ex]
    by (simp add: work_def init_pool_def rank_def split: if_splits)
qed


lemma processFile_errors:
  "fst ` set (errors (fst (processFile env accessToken ref vars)))
     \<subseteq> insert (fileId ref) (fst ` set (errors vars))"
  by (auto simp: processFile_def split: option.splits)

lemma fire_failures_started:
  assumes "failures_started s" "fire c d (processFile env accessToken) e s = Some s'"
  shows "failures_started s'"
proof (cases e)
  case Start
  with assms(2) have "fire c d (processFile env accessToken) Start s = Some s'" by simp
  then show ?thesis using assms(1) by (elim fire_Start) (auto simp: failures_started_def)
next
  case Exit
  with assms(2) have "fire c d (processFile env accessToken) Exit s = Some s'" by simp
  then show ?thesis using assms(1) by (elim fire_Exit) (auto simp: failures_started_def)
next
  case (Complete i)
  with assms(2) have f: "fire c d (processFile env accessToken) (Complete i) s = Some s'" by simp
  from f show ?thesis
  proof (rule fire_Complete)
    fix vars e
    assume "processFile env accessToken (inProgress s ! i) (shared s) = (vars, Some e)"
    then show ?thesis using processFile_never_rejects [of env accessToken]
      unfolding never_rejects_def by (metis snd_conv option.distinct(1))
  next
    fix vars
    assume i: "i < length (inProgress s)"
      and r: "processFile env accessToken (inProgress s ! i) (shared s) = (vars, None)"
      and s': "s' = s\<lparr>shared := vars, inProgress := remove_nth i (inProgress s),
              pc := (if pc s = Racing then Raced else pc s)\<rparr>"
    have item: "inProgress s ! i \<in> set (started s)"
      using assms(1) i by (auto simp: failures_started_def)
    have "fst ` set (errors vars) \<subseteq> insert (fileId (inProgress s ! i)) (fst ` set (errors (shared s)))"
      using processFile_errors [of env accessToken "inProgress s ! i" "shared s"] r by simp
    then have "fst ` set (errors vars) \<subseteq> fileId ` set (started s)"
      using item assms(1) by (auto simp: failures_started_def)
    moreover have "set (remove_nth i (inProgress s)) \<subseteq> set (started s)"
      using set_remove_nth [of i "inProgress s"] assms(1) by (auto simp: failures_started_def)
    ultimately show ?thesis using s' by (simp add: failures_started_def)
  qed
next
  case Wake
  with assms(2) have "fire c d (processFile env accessToken) Wake s = Some s'" by simp
  then show ?thesis using assms(1) by (elim fire_Wake) (auto simp: failures_started_def)
next
  case Resume
  with assms(2) have "fire c d (processFile env accessToken) Resume s = Some s'" by simp
  then show ?thesis using assms(1) by (elim fire_Resume) (auto simp: failures_started_def)
qed

lemma exec_failures_started:
  assumes "exec c d (processFile env accessToken) steps (init_pool items noVars) = Some s"
  shows "fst ` set (errors (shared s)) \<subseteq> fileId ` set items"
proof -
  have init: "failures_started (init_pool items noVars)"
    by (simp add: failures_started_def init_pool_def noVars_def)
  have "failures_started s"
    by (rule exec_invariant [where P = failures_started, OF fire_failures_started init assms])
  then have "fst ` set (errors (shared s)) \<subseteq> fileId ` set (started s)"
    by (simp add: failures_started_def)
  moreover have "started s @ queue s = items"
    using exec_shaped [OF assms] by (simp add: shaped_def)
  then have "set (started s) \<subseteq> set items" by (metis set_append Un_upper1)
  ultimately show ?thesis by (meson image_mono subset_trans)
qed

lemma activeRefs_excludes:
  "fid \<in> set ids \<Longrightarrow> fid \<notin> fileId ` set (activeRefs (Some ids) allRefs)"
  by (cases ids) (auto simp: activeRefs_def)

lemma length_activeRefs:
  "length (activeRefs (Some ids) allRefs)
     = length allRefs - (if length ids > 0 then length (filter (\<lambda>r. fileId r \<in> set ids) allRefs) else 0)"
proof (cases "length ids > 0")
  case True
  have "length (filter (\<lambda>r. fileId r \<in> set ids) allRefs)
          + length (filter (\<lambda>r. \<not> fileId r \<in> set ids) allRefs) = length allRefs"
    by (rule sum_length_filter_compl)
  then have "length (filter (\<lambda>r. fileId r \<notin> set ids) allRefs)
          = length allRefs - length (filter (\<lambda>r. fileId r \<in> set ids) allRefs)"
    by linarith
  then show ?thesis using True by (simp only: activeRefs_def option.case if_True)
next
  case False
  then show ?thesis by (simp add: activeRefs_def)
qed

lemma indexed_mergeRef: "indexed refs \<Longrightarrow> indexed (mergeRef refs r)"
  by (simp add: indexed_def mergeRef_def has_def set_new_def)

lemma indexed_foldl_mergeRef: "indexed refs \<Longrightarrow> indexed (foldl mergeRef refs rs)"
  by (induction rs arbitrary: refs) (simp_all add: indexed_mergeRef)

lemma indexed_scanFile: "indexed refs \<Longrightarrow> indexed (scanFile refs f)"
  by (cases f) (simp_all add: scanFile_def indexed_foldl_mergeRef)

lemma indexed_foldl_scanFile: "indexed refs \<Longrightarrow> indexed (foldl scanFile refs files)"
  by (induction files arbitrary: refs) (simp_all add: indexed_scanFile)

lemma scanAllConversations_distinct: "distinct (map fileId (scanAllConversations files))"
proof -
  have i: "indexed (foldl scanFile [] files)"
    by (rule indexed_foldl_scanFile) (simp add: indexed_def)
  then have "\<forall>x \<in> set (foldl scanFile [] files). (fileId \<circ> snd) x = fst x"
    by (simp add: indexed_def)
  then have "map (fileId \<circ> snd) (foldl scanFile [] files) = map fst (foldl scanFile [] files)"
    by (simp only: map_eq_conv)
  then have "map fileId (scanAllConversations files) = map fst (foldl scanFile [] files)"
    by (simp only: scanAllConversations_def map_map)
  then show ?thesis using i by (simp only: indexed_def)
qed

lemma distinct_count:
  "distinct (map f xs) \<Longrightarrow> length (filter (\<lambda>x. f x = a) xs) = (if a \<in> f ` set xs then 1 else 0)"
  by (induction xs) auto

lemma runFileDownloads_Some:
  assumes "runFileDownloads env accessToken files failedFiles options steps = Some run"
  shows "skippedKnown run
           = (if length (loadFailedFiles failedFiles) > 0
              then length (filter (\<lambda>r. fileId r \<in> set (loadFailedFiles failedFiles)) (scanAllConversations files))
              else 0)
       \<and> (\<forall>r. result run = Some r \<longrightarrow>
             downloadFiles env accessToken (scanAllConversations files)
               \<lparr>concurrency = concurrency options, delay = delay options,
                skipFileIds = Some (loadFailedFiles failedFiles)\<rparr> steps = Some r
           \<and> savedFailedFiles run = Some (loadFailedFiles failedFiles @ failedFileIds r))"
  using assms by (auto simp: runFileDownloads_def Let_def split: if_splits option.splits)

text \<open>
  What \<open>runFileDownloads\<close> does with the list that \<open>loadFailedFiles\<close> returns. A file
  identifier of that list is not in the batch: in no state of the loop has a worker been
  started for it or is it queued, so no skip check and no request is made for it. The
  reported count \<open>skippedKnown\<close> is the number of scanned references with a listed
  identifier, among which this identifier occurs once if the scan found it (and not at
  all otherwise). It is not among the failed identifiers of the result, and \<open>total\<close>,
  which is the sum of the three counters, counts the scanned references less the
  reported ones.
\<close>

lemma runFileDownloads_excludes_listed:
  assumes deny: "fid \<in> set (loadFailedFiles failedFiles)"
  shows "(exec (concurrency options) (delay options) (processFile env accessToken) steps0
            (init_pool (activeRefs (Some (loadFailedFiles failedFiles)) (scanAllConversations files)) noVars)
            = Some s
          \<longrightarrow> fid \<notin> fileId ` set (started s) \<and> fid \<notin> fileId ` set (queue s))
       \<and> (runFileDownloads env accessToken files failedFiles options steps = Some run \<longrightarrow>
            skippedKnown run
              = length (filter (\<lambda>r. fileId r \<in> set (loadFailedFiles failedFiles)) (scanAllConversations files))
          \<and> length (filter (\<lambda>r. fileId r = fid)
                (filter (\<lambda>r. fileId r \<in> set (loadFailedFiles failedFiles)) (scanAllConversations files)))
              = (if fid \<in> fileId ` set (scanAllConversations files) then 1 else 0)
          \<and> (\<forall>r. result run = Some r \<longrightarrow>
                fid \<notin> set (failedFileIds r)
              \<and> total r = length (scanAllConversations files) - skippedKnown run
              \<and> total r = downloaded r + skipped r + failed r))"
proof -
  let ?deny = "loadFailedFiles failedFiles"
  let ?refs = "scanAllConversations files"
  let ?active = "activeRefs (Some ?deny) ?refs"
  let ?w = "processFile env accessToken"
  have nonempty: "length ?deny > 0" using deny by (cases ?deny) auto
  have out: "fid \<notin> fileId ` set ?active" by (rule activeRefs_excludes [OF deny])
  have a: "fid \<notin> fileId ` set (started s) \<and> fid \<notin> fileId ` set (queue s)"
    if "exec (concurrency options) (delay options) ?w steps0 (init_pool ?active noVars) = Some s"
  proof -
    have "started s @ queue s = ?active" using exec_shaped [OF that] by (simp add: shaped_def)
    then have "set (started s) \<union> set (queue s) = set ?active" by (metis set_append)
    then show ?thesis using out by blast
  qed
  have count: "length (filter (\<lambda>r. fileId r = fid) (filter (\<lambda>r. fileId r \<in> set ?deny) ?refs))
                 = (if fid \<in> fileId ` set ?refs then 1 else 0)"
  proof -
    have "filter (\<lambda>r. fileId r = fid) (filter (\<lambda>r. fileId r \<in> set ?deny) ?refs)
            = filter (\<lambda>r. fileId r = fid) ?refs"
      using deny by (auto intro: filter_cong)
    then show ?thesis using distinct_count [OF scanAllConversations_distinct, of fid files] by simp
  qed
  have b: "skippedKnown run = length (filter (\<lambda>r. fileId r \<in> set ?deny) ?refs)
         \<and> (\<forall>r. result run = Some r \<longrightarrow>
                fid \<notin> set (failedFileIds r)
              \<and> total r = length ?refs - skippedKnown run
              \<and> total r = downloaded r + skipped r + failed r)"
    if run: "runFileDownloads env accessToken files failedFiles options steps = Some run"
  proof -
    let ?opts = "\<lparr>concurrency = concurrency options, delay = delay options, skipFileIds = Some ?deny\<rparr>"
    from runFileDownloads_Some [OF run]
    have known: "skippedKnown run = length (filter (\<lambda>r. fileId r \<in> set ?deny) ?refs)"
      and res: "\<And>r. result run = Some r \<Longrightarrow> downloadFiles env accessToken ?refs ?opts steps = Some r"
      using nonempty by auto
    have "fid \<notin> set (failedFileIds r) \<and> total r = length ?refs - skippedKnown run
           \<and> total r = downloaded r + skipped r + failed r" if r: "result run = Some r" for r
    proof -
      have dl: "downloadFiles env accessToken ?refs ?opts steps = Some r" by (rule res [OF r])
      from dl obtain s1 where
        ex: "exec (concurrency ?opts) (delay ?opts) ?w steps
               (init_pool (activeRefs (skipFileIds ?opts) ?refs) noVars) = Some s1"
        and r1: "r = fileResult (activeRefs (skipFileIds ?opts) ?refs) s1"
        by (rule downloadFiles_Some)
      have "fst ` set (errors (shared s1)) \<subseteq> fileId ` set ?active"
        using exec_failures_started [OF ex] by simp
      then have f: "fid \<notin> set (failedFileIds r)" using out r1 by (auto simp: fileResult_def)
      have "total r = length ?active" using downloadFiles_counts [OF dl] by simp
      then have t: "total r = length ?refs - skippedKnown run"
        using known nonempty by (simp add: length_activeRefs)
      show ?thesis using f t downloadFiles_counts [OF dl] by simp
    qed
    then show ?thesis using known by blast
  qed
  have A: "exec (concurrency options) (delay options) ?w steps0 (init_pool ?active noVars) = Some s
          \<longrightarrow> fid \<notin> fileId ` set (started s) \<and> fid \<notin> fileId ` set (queue s)"
    using a by (rule impI)
  have B: "runFileDownloads env accessToken files failedFiles options steps = Some run \<longrightarrow>
            skippedKnown run = length (filter (\<lambda>r. fileId r \<in> set ?deny) ?refs)
          \<and> length (filter (\<lambda>r. fileId r = fid) (filter (\<lambda>r. fileId r \<in> set ?deny) ?refs))
              = (if fid \<in> fileId ` set ?refs then 1 else 0)
          \<and> (\<forall>r. result run = Some r \<longrightarrow>
                fid \<notin> set (failedFileIds r)
              \<and> total r = length ?refs - skippedKnown run
              \<and> total r = downloaded r + skipped r + failed r)"
  proof (rule impI)
    assume run: "runFileDownloads env accessToken files failedFiles options steps = Some run"
    from b [OF run] have b1: "skippedKnown run = length (filter (\<lambda>r. fileId r \<in> set ?deny) ?refs)"
      and b2: "\<forall>r. result run = Some r \<longrightarrow>
                fid \<notin> set (failedFileIds r)
              \<and> total r = length ?refs - skippedKnown run
              \<and> total r = downloaded r + skipped r + failed r"
      by (rule conjunct1, rule conjunct2)
    show "skippedKnown run = length (filter (\<lambda>r. fileId r \<in> set ?deny) ?refs)
          \<and> length (filter (\<lambda>r. fileId r = fid) (filter (\<lambda>r. fileId r \<in> set ?deny) ?refs))
              = (if fid \<in> fileId ` set ?refs then 1 else 0)
          \<and> (\<forall>r. result run = Some r \<longrightarrow>
                fid \<notin> set (failedFileIds r)
              \<and> total r = length ?refs - skippedKnown run
              \<and> total r = downloaded r + skipped r + failed r)"
      using b1 count b2 by (intro conjI)
  qed
  show ?thesis using A B by (rule conjI)
qed

section \<open>The conversation backup\<close>

lemma planStep_eq:
  "planStep env incr (vars, td) conv =
     (if skips env incr conv
      then (vars\<lparr>skipped := skipped vars + 1, completed := completed vars + 1\<rparr>, td)
      else (vars, td @ [conv]))"
  by (simp add: planStep_def skips_def)

lemma foldl_planStep:
  "foldl (planStep env incr) (vars, td) convs =
     (vars\<lparr>skipped := skipped vars + length (filter (skips env incr) convs),
           completed := completed vars + length (filter (skips env incr) convs)\<rparr>,
      td @ filter (\<lambda>c. \<not> skips env incr c) convs)"
proof (induction convs arbitrary: vars td)
  case Nil
  then show ?case by simp
next
  case (Cons c convs)
  show ?case
  proof (cases "skips env incr c")
    case True
    then show ?thesis using Cons.IH by (simp add: planStep_eq)
  next
    case False
    then show ?thesis using Cons.IH by (simp add: planStep_eq)
  qed
qed

lemma plan_eq:
  "plan env incr convs =
     (noVars\<lparr>skipped := length (filter (skips env incr) convs),
             completed := length (filter (skips env incr) convs)\<rparr>,
      filter (\<lambda>c. \<not> skips env incr c) convs)"
  by (simp add: plan_def foldl_planStep noVars_def)

lemma plan_accounts:
  assumes "plan env incr convs = (vars, td)"
  shows "tally vars + length td = length convs"
proof -
  have "length (filter (skips env incr) convs) + length (filter (\<lambda>c. \<not> skips env incr c) convs)
          = length convs"
    by (rule sum_length_filter_compl)
  then show ?thesis using assms by (auto simp: plan_eq tally_def noVars_def)
qed




text \<open>The conversation worker counts its item once when no log line of a success can fail.\<close>

lemma processConversation_counts_once:
  assumes "\<not> verb \<or> (\<forall>line. appendLog env line = None)"
  shows "counts_once (processConversation env accessToken verb)"
  using assms
  by (auto simp: counts_once_def processConversation_def tryDownloadConversation_def tally_def Let_def
      split: sum.splits option.splits)

lemma backup_Some:
  assumes "backup env accessToken options conversations steps = Some (Inr r)"
  obtains vars toDownload s where
    "plan env (incremental options) conversations = (vars, toDownload)"
    "exec (concurrency options) (delay options)
       (processConversation env accessToken (verbose options)) steps (init_pool toDownload vars) = Some s"
    "pc s = Returned" "finishBackup env conversations (shared s) = Inr r"
  using assms by (auto simp: backup_def split: prod.splits option.splits pc.splits)

lemma finishBackup_Inr:
  assumes "finishBackup env conversations v = Inr r"
  shows "downloaded r = downloaded v \<and> skipped r = skipped v \<and> failed r = failed v
       \<and> totalConversations r = length conversations \<and> errorList r = errors v"
  using assms by (auto simp: finishBackup_def split: option.splits)

text \<open>
  When verbose logging is off, or no log append fails, the counts of a returned backup
  add up to the number of listed conversations.
\<close>

lemma backup_counts:
  assumes quiet: "\<not> verbose options \<or> (\<forall>line. appendLog env line = None)"
    and run: "backup env accessToken options conversations steps = Some (Inr r)"
  shows "totalConversations r = downloaded r + skipped r + failed r"
proof -
  from run obtain vars toDownload s where
    p: "plan env (incremental options) conversations = (vars, toDownload)"
    and ex: "exec (concurrency options) (delay options)
       (processConversation env accessToken (verbose options)) steps (init_pool toDownload vars) = Some s"
    and ret: "pc s = Returned" and fin: "finishBackup env conversations (shared s) = Inr r"
    by (rule backup_Some)
  have "tally (shared s) = tally vars + length toDownload"
    by (rule exec_accounted [OF processConversation_counts_once [OF quiet] ex ret])
  then have "tally (shared s) = length conversations" using plan_accounts [OF p] by simp
  then show ?thesis using finishBackup_Inr [OF fin] by (simp add: tally_def)
qed

text \<open>With a limit of one or more, the backup has a run that ends.\<close>

lemma backup_ends:
  assumes "0 < concurrency options"
  shows "\<exists>steps r. backup env accessToken options conversations steps = Some r"
proof -
  obtain vars toDownload where p: "plan env (incremental options) conversations = (vars, toDownload)"
    by (cases "plan env (incremental options) conversations")
  let ?w = "processConversation env accessToken (verbose options)"
  obtain steps s where ex: "exec (concurrency options) (delay options) ?w steps (init_pool toDownload vars) = Some s"
    and fin: "final (pc s)"
    using run_exists [OF assms shaped_init [of toDownload vars], where d = "delay options" and w = ?w]
    by blast
  from fin have "\<exists>r. backup env accessToken options conversations steps = Some r"
    using p ex by (cases "pc s") (simp_all add: backup_def final_def)
  then show ?thesis by blast
qed

section \<open>The runs on the concrete inputs\<close>

lemma demo_scan:
  "scanAllConversations demo_files =
     [ref_of ''file-new'' attachment, ref_of ''file-gone'' attachment,
      ref_of ''file-old'' image_asset_pointer, ref_of ''file-bad'' attachment]"
  by (simp add: scanAllConversations_def scanFile_def extractFileReferences_def scanNode_def
      scanAttachment_def scanCitation_def citationFileId_def citationTitle_def nullish_def
      extractFileIdFromPointer_def FILE_SERVICE_PREFIX_def mergeRef_def has_def set_new_def
      demo_files_def ref_of_def)

lemma demo_plan:
  "plan demo_backup_env True [c_old, c_new] =
     (noVars\<lparr>skipped := 1, completed := 1\<rparr>, [c_new])"
  by (simp add: plan_def planStep_def upToDate_def getExistingConversationUpdateTime_def
      convUpdateTime_def js_ge_def noVars_def demo_backup_env_def c_old_def c_new_def)

lemma demo_download:
  "downloadConversation demo_backup_env ''token'' ''c-new'' = Inr \<lparr>update_time = Some 150, mapping = []\<rparr>"
  by (simp add: downloadConversation_def fetch_def withRetry_def retry_loop.simps request_def ok_def
      spreadOptions_def defaultOptions_def noOptions_def demo_backup_env_def)

lemma demo_worker:
  "processConversation demo_backup_env ''token'' True c_new vars =
     (vars\<lparr>downloaded := downloaded vars + 1,
           errors := errors vars @ [(''c-new'', ''EBUSY: resource busy or locked'')],
           failed := failed vars + 1, completed := completed vars + 1\<rparr>, None)"
  by (simp add: processConversation_def tryDownloadConversation_def demo_download c_new_def
      errorMessage_def PlainError_def)
     (simp add: demo_backup_env_def PlainError_def errorMessage_def)

text \<open>
  C1 (the counts of a returned run add up to its total) fails for the conversation
  backup: in verbose mode, a conversation that is downloaded and saved and whose log line
  is then refused is counted as downloaded by the \<open>try\<close> block and as failed by the
  \<open>catch\<close> block. Two conversations are listed here, one is skipped, and the counts of
  the result add up to three.
\<close>

theorem backup_counts_item_twice:
  "backup demo_backup_env ''token'' verbose_incremental [c_old, c_new] one_worker_run
     = Some (Inr demo_backup_result)
   \<and> totalConversations demo_backup_result = 2
   \<and> downloaded demo_backup_result + skipped demo_backup_result + failed demo_backup_result = 3"
  by (simp add: backup_def verbose_incremental_def demo_plan one_worker_run_def init_pool_def
      demo_worker remove_nth_def finishBackup_def noVars_def demo_backup_result_def)
     (simp add: demo_backup_env_def decimal.simps)

lemma demo_fetch_new:
  "fst (resolveMeta demo_files_env ''token'' (ref_of ''file-new'' attachment))
     = Inr \<lparr>download_url = Some ''https://files/file-new'', file_name = Some ''a.png''\<rparr>"
  by (simp add: resolveMeta_def fetch_def withRetry_def retry_loop.simps request_def ok_def
      spreadOptions_def defaultOptions_def noOptions_def demo_files_env_def ref_of_def)

lemma demo_fetch_bad:
  "fst (resolveMeta demo_files_env ''token'' (ref_of ''file-bad'' attachment))
     = Inl (Some (NetworkError ''Request failed: 404 Not Found'' (Some 404)))"
  by (simp add: resolveMeta_def fetch_def withRetry_def retry_loop.simps request_def ok_def
      spreadOptions_def defaultOptions_def noOptions_def demo_files_env_def ref_of_def
      nonRetryable_def NetworkError_def show_int_def decimal.simps)

lemma demo_raw:
  "fst (fetchRaw demo_files_env url) = Inr ''bytes''"
  by (simp add: fetchRaw_def withRetry_def retry_loop.simps
      spreadOptions_def defaultOptions_def noOptions_def demo_files_env_def)

lemma demo_process_new:
  "processFile demo_files_env ''token'' (ref_of ''file-new'' attachment) v
     = (v\<lparr>downloaded := downloaded v + 1, completed := completed v + 1\<rparr>, None)"
  by (simp add: processFile_def tryDownloadFile_def demo_fetch_new demo_raw truthy_def)
     (simp add: demo_files_env_def ref_of_def)

lemma demo_process_old:
  "processFile demo_files_env ''token'' (ref_of ''file-old'' image_asset_pointer) v
     = (v\<lparr>skipped := skipped v + 1, completed := completed v + 1\<rparr>, None)"
  by (simp add: processFile_def demo_files_env_def ref_of_def)

lemma demo_process_bad:
  "processFile demo_files_env ''token'' (ref_of ''file-bad'' attachment) v
     = (v\<lparr>failed := failed v + 1,
          errors := errors v @ [(''file-bad'', ''Request failed: 404 Not Found'')],
          completed := completed v + 1\<rparr>, None)"
  by (simp add: processFile_def tryDownloadFile_def demo_fetch_bad errorMessage_def NetworkError_def)
     (simp add: demo_files_env_def ref_of_def)

lemma demo_exec_files:
  "exec 2 0 (processFile demo_files_env ''token'') demo_steps (init_pool demo_active noVars)
     = Some demo_final"
  by (simp add: demo_steps_def demo_active_def init_pool_def remove_nth_def noVars_def
      demo_process_new demo_process_old demo_process_bad demo_final_def)

lemma demo_deny: "loadFailedFiles (Some [''file-gone'']) = [''file-gone'']"
  by (simp add: loadFailedFiles_def Set_of_def)

lemma demo_activeRefs:
  "activeRefs (Some [''file-gone'']) (scanAllConversations demo_files) = demo_active"
  by (simp add: demo_scan activeRefs_def demo_active_def ref_of_def)

lemma demo_runFileDownloads:
  "runFileDownloads demo_files_env ''token'' demo_files (Some [''file-gone'']) demo_options demo_steps
     = Some demo_run"
  by (simp add: runFileDownloads_def downloadFiles_def demo_deny demo_activeRefs Let_def
      demo_options_def demo_exec_files demo_final_def fileResult_def demo_run_def demo_result_def)
     (simp add: demo_scan ref_of_def demo_active_def)

lemma runFileDownloads_excludes_listed_example:
  "''file-gone'' \<in> set (loadFailedFiles (Some [''file-gone'']))
   \<and> ''file-gone'' \<in> fileId ` set (scanAllConversations demo_files)
   \<and> runFileDownloads demo_files_env ''token'' demo_files (Some [''file-gone'']) demo_options demo_steps
        = Some demo_run
   \<and> ''file-gone'' \<notin> fileId ` set (started demo_final)
   \<and> skippedKnown demo_run = 1
   \<and> ''file-gone'' \<notin> set (failedFileIds demo_result)
   \<and> total demo_result = length (scanAllConversations demo_files) - 1
   \<and> total demo_result = downloaded demo_result + skipped demo_result + failed demo_result"
proof -
  have d: "''file-gone'' \<in> set (loadFailedFiles (Some [''file-gone'']))" by (simp add: demo_deny)
  have e: "exec (concurrency demo_options) (delay demo_options) (processFile demo_files_env ''token'')
             demo_steps
             (init_pool (activeRefs (Some (loadFailedFiles (Some [''file-gone''])))
                (scanAllConversations demo_files)) noVars) = Some demo_final"
    by (simp add: demo_deny demo_activeRefs demo_options_def demo_exec_files)
  have r: "result demo_run = Some demo_result" by (simp add: demo_run_def)
  note T = runFileDownloads_excludes_listed [OF d, where options = demo_options and env = demo_files_env
      and accessToken = "''token''" and steps0 = demo_steps and files = demo_files
      and s = demo_final and steps = demo_steps and run = demo_run]
  have T1: "''file-gone'' \<notin> fileId ` set (started demo_final)"
    by (rule conjunct1 [OF mp [OF conjunct1 [OF T] e]])
  note T2 = mp [OF conjunct2 [OF T] demo_runFileDownloads]
  have T3: "skippedKnown demo_run = length (filter (\<lambda>r. fileId r \<in> set (loadFailedFiles (Some [''file-gone''])))
            (scanAllConversations demo_files))"
    by (rule conjunct1 [OF T2])
  note T4 = mp [OF spec [OF conjunct2 [OF conjunct2 [OF T2]]] r]
  have T5: "''file-gone'' \<notin> set (failedFileIds demo_result)"
    by (rule conjunct1 [OF T4])
  have T6: "total demo_result = length (scanAllConversations demo_files) - skippedKnown demo_run"
    by (rule conjunct1 [OF conjunct2 [OF T4]])
  have T7: "total demo_result = downloaded demo_result + skipped demo_result + failed demo_result"
    by (rule conjunct2 [OF conjunct2 [OF T4]])
  have k: "skippedKnown demo_run = 1" by (simp add: demo_run_def)
  have m: "''file-gone'' \<in> fileId ` set (scanAllConversations demo_files)"
    by (simp add: demo_scan ref_of_def)
  show ?thesis using d m demo_runFileDownloads T1 k T5 T6 T7 by (simp only: simp_thms)
qed

theorem in_flight_bounded_witness:
  "exec (concurrency verbose_incremental) (delay verbose_incremental)
      (processConversation demo_backup_env ''token'' True) [Start] (init_pool [c_new] noVars)
      = Some demo_one_started
   \<and> length (inProgress demo_one_started) \<le> nat (concurrency verbose_incremental)
   \<and> exec (concurrency demo_options) (delay demo_options) (processFile demo_files_env ''token'')
      [Start, Start] (init_pool demo_active noVars) = Some demo_two_started
   \<and> int (length (inProgress demo_two_started)) \<le> concurrency demo_options
   \<and> length (inProgress demo_two_started) = 2"
proof -
  have b: "exec (concurrency verbose_incremental) (delay verbose_incremental)
      (processConversation demo_backup_env ''token'' True) [Start] (init_pool [c_new] noVars)
      = Some demo_one_started"
    by (simp add: verbose_incremental_def init_pool_def demo_one_started_def)
  have f: "exec (concurrency demo_options) (delay demo_options) (processFile demo_files_env ''token'')
      [Start, Start] (init_pool demo_active noVars) = Some demo_two_started"
    by (simp add: demo_options_def init_pool_def demo_two_started_def demo_active_def)
  have c: "0 \<le> concurrency demo_options" by (simp add: demo_options_def)
  from in_flight_bounded [where bopts = verbose_incremental and benv = demo_backup_env
      and token = "''token''" and verb = True and bsteps = "[Start]" and toDownload = "[c_new]"
      and vars = noVars and bs = demo_one_started and fopts = demo_options and fenv = demo_files_env
      and fsteps = "[Start, Start]" and refs = demo_active and fs = demo_two_started] b f c
  have "length (inProgress demo_one_started) \<le> nat (concurrency verbose_incremental)"
    and "int (length (inProgress demo_two_started)) \<le> concurrency demo_options"
    by simp_all
  then show ?thesis using b f by (simp add: demo_two_started_def)
qed


section \<open>The backup command\<close>

text \<open>
  The backup writes \<open>metadata.json\<close> anew, without the key \<open>failedFiles\<close>, before
  \<open>runFileDownloads\<close> reads it: whatever the file held, no failed identifier is loaded,
  no reference is reported as previously failed, and the batch has every scanned
  reference.
\<close>

lemma readFailedFiles_saveMetadataFile: "readFailedFiles (saveMetadataFile old metadata) = None"
  by (simp add: readFailedFiles_def saveMetadataFile_def)

lemma runFileDownloads_nothing_loaded:
  assumes "runFileDownloads env accessToken files None options steps = Some run"
  shows "skippedKnown run = 0"
    and "result run = Some res \<Longrightarrow> total res = length (scanAllConversations files)"
  using assms
  by (auto simp: runFileDownloads_def loadFailedFiles_def Set_of_def Let_def downloadFiles_def
      activeRefs_def fileResult_def split: if_splits option.splits)

lemma backupCommand_loads_nothing:
  assumes "backupCommand benv fenv accessToken now options shouldDownloadFiles conversations files
             metadataJson bsteps fsteps = Some (r, Some run, metadataJson1)"
  shows "skippedKnown run = 0
         \<and> (\<forall>res. result run = Some res \<longrightarrow> total res = length (scanAllConversations files))"
proof -
  from assms obtain m where
    "runFileDownloads fenv accessToken files (readFailedFiles (saveMetadataFile metadataJson m))
       \<lparr>concurrency = concurrency options, delay = delay options\<rparr> fsteps = Some run"
    by (auto simp: backupCommand_def Let_def split: option.splits sum.splits if_splits)
  then have "runFileDownloads fenv accessToken files None
       \<lparr>concurrency = concurrency options, delay = delay options\<rparr> fsteps = Some run"
    by (simp only: readFailedFiles_saveMetadataFile)
  then show ?thesis using runFileDownloads_nothing_loaded by blast
qed

lemma demo_worker_quiet:
  "processConversation demo_backup_env ''token'' False c_new vars =
     (vars\<lparr>downloaded := downloaded vars + 1, completed := completed vars + 1\<rparr>, None)"
  by (simp add: processConversation_def tryDownloadConversation_def demo_download c_new_def)
     (simp add: demo_backup_env_def)

lemma demo_backup_quiet:
  "backup demo_backup_env ''token'' quiet_incremental [c_old, c_new] one_worker_run
     = Some (Inr command_backup_result)"
  by (simp add: backup_def quiet_incremental_def demo_plan one_worker_run_def init_pool_def
      demo_worker_quiet remove_nth_def finishBackup_def noVars_def command_backup_result_def)
     (simp add: demo_backup_env_def decimal.simps)

lemma demo_fetch_gone:
  "resolveMeta demo_files_env ''token'' (ref_of ''file-gone'' attachment)
     = (Inr \<lparr>download_url = Some ''https://files/file-gone'', file_name = Some ''a.png''\<rparr>, [Invoke 0])"
  by (simp add: resolveMeta_def withRetry_def retry_loop.simps request_def ok_def
      spreadOptions_def defaultOptions_def noOptions_def demo_files_env_def ref_of_def)

lemma demo_process_gone:
  "processFile demo_files_env ''token'' (ref_of ''file-gone'' attachment) v
     = (v\<lparr>downloaded := downloaded v + 1, completed := completed v + 1\<rparr>, None)"
  by (simp add: processFile_def tryDownloadFile_def demo_fetch_gone demo_raw truthy_def)
     (simp add: demo_files_env_def ref_of_def)

lemma demo_exec_command:
  "exec 2 0 (processFile demo_files_env ''token'') command_file_steps
       (init_pool (scanAllConversations demo_files) noVars)
     = Some \<lparr>queue = [], inProgress = [],
             shared = \<lparr>downloaded = 2, skipped = 1, failed = 1, completed = 4,
                       errors = [(''file-bad'', ''Request failed: 404 Not Found'')]\<rparr>,
             started = scanAllConversations demo_files, pc = Returned\<rparr>"
  by (simp add: demo_scan command_file_steps_def init_pool_def remove_nth_def noVars_def
      demo_process_new demo_process_old demo_process_bad demo_process_gone)

lemma demo_command_run:
  "runFileDownloads demo_files_env ''token'' demo_files None \<lparr>concurrency = 2, delay = 0\<rparr> command_file_steps
     = Some \<lparr>skippedKnown = 0, result = Some command_file_result, savedFailedFiles = Some [''file-bad'']\<rparr>"
  by (simp add: runFileDownloads_def downloadFiles_def loadFailedFiles_def Set_of_def activeRefs_def Let_def
      demo_exec_command fileResult_def command_file_result_def)
     (simp add: demo_scan)

text \<open>
  C8 fails in the backup command. \<open>metadata.json\<close> holds the failed identifier
  \<open>file-gone\<close> from a previous run, and a conversation of the output directory refers to
  it. The backup rewrites \<open>metadata.json\<close> with the run metadata alone before
  \<open>runFileDownloads\<close> reads it, so nothing is excluded: no previously failed reference
  is reported, the batch has all four scanned references, \<open>file-gone\<close> is requested
  and counted as downloaded, and the list that is written back has lost it.
\<close>

theorem backupCommand_forgets_failed_files:
  "readFailedFiles persisted_metadata = Some [''file-gone'']
   \<and> ref_of ''file-gone'' attachment \<in> set (scanAllConversations demo_files)
   \<and> backupCommand demo_backup_env demo_files_env ''token'' ''2026-02-01T00:00:00.000Z'' quiet_incremental
        True [c_old, c_new] demo_files persisted_metadata one_worker_run command_file_steps
      = Some (command_backup_result,
              Some \<lparr>skippedKnown = 0, result = Some command_file_result,
                    savedFailedFiles = Some [''file-bad'']\<rparr>,
              command_metadata)
   \<and> total command_file_result = 4
   \<and> downloaded command_file_result = 2
   \<and> resolveMeta demo_files_env ''token'' (ref_of ''file-gone'' attachment)
        = (Inr \<lparr>download_url = Some ''https://files/file-gone'', file_name = Some ''a.png''\<rparr>, [Invoke 0])
   \<and> processFile demo_files_env ''token'' (ref_of ''file-gone'' attachment) noVars
        = (noVars\<lparr>downloaded := 1, completed := 1\<rparr>, None)
   \<and> readFailedFiles command_metadata = Some [''file-bad'']"
proof -
  have a: "readFailedFiles persisted_metadata = Some [''file-gone'']"
    by (simp add: readFailedFiles_def persisted_metadata_def)
  have b: "ref_of ''file-gone'' attachment \<in> set (scanAllConversations demo_files)"
    by (simp add: demo_scan)
  have c: "backupCommand demo_backup_env demo_files_env ''token'' ''2026-02-01T00:00:00.000Z'' quiet_incremental
        True [c_old, c_new] demo_files persisted_metadata one_worker_run command_file_steps
      = Some (command_backup_result,
              Some \<lparr>skippedKnown = 0, result = Some command_file_result,
                    savedFailedFiles = Some [''file-bad'']\<rparr>,
              command_metadata)"
    by (simp add: backupCommand_def demo_backup_quiet Let_def readFailedFiles_saveMetadataFile)
       (simp add: quiet_incremental_def demo_command_run saveMetadataFile_def saveFailedFiles_def
         command_backup_result_def command_metadata_def)
  have d: "total command_file_result = 4" "downloaded command_file_result = 2"
    by (simp_all add: command_file_result_def)
  have e: "processFile demo_files_env ''token'' (ref_of ''file-gone'' attachment) noVars
        = (noVars\<lparr>downloaded := 1, completed := 1\<rparr>, None)"
    by (simp add: demo_process_gone noVars_def)
  have f: "readFailedFiles command_metadata = Some [''file-bad'']"
    by (simp add: readFailedFiles_def command_metadata_def)
  show ?thesis using a b c d demo_fetch_gone e f by (intro conjI)
qed

section \<open>The retry budget of the two download steps\<close>








end
